theory Spec2Isabelle
  imports Main "HOL-Library.Word" "HOL-Library.Sublist" "HOL-Library.AList"
begin

section \<open>Data model (internal/models/user.go and the messages of package pb)\<close>

text \<open>
  Go's \<open>int32\<close> is a 32-bit word: \<open>+\<close> wraps around, as Go's signed arithmetic does, and
  \<open>sint\<close> reads the signed value. A \<open>time.Time\<close> is the reading of the clock as a number;
  every call of \<open>time.Now()\<close> in the source is a parameter \<open>now\<close> of the model. A Go
  \<open>string\<close> is its sequence of bytes.
\<close>

type_synonym int32 = "32 word"
type_synonym Time = int

record User =
  ID :: int32
  Name :: string
  Email :: string
  Role :: string
  CreatedAt :: Time
  UpdatedAt :: Time

text \<open>
  Modelled from the spec: the generated message types of package \<open>pb\<close>
  (\<open>proto/user.pb.go\<close>) are not among the sources. Each record below has exactly the
  fields the code under \<open>internal/\<close> reads or writes, under the name the code uses,
  prefixed where two messages share a field name. \<open>Limit\<close> is the numeric value of the
  field: the code only compares it with 0 and converts it with \<open>int(...)\<close>.
\<close>

record CreateUserRequest =
  req_Name :: string
  req_Email :: string
  req_Role :: string

record UpdateUserRequest =
  upd_Id :: int32
  upd_Name :: string
  upd_Email :: string
  upd_Role :: string

record UserResponse =
  resp_Id :: int32
  resp_Name :: string
  resp_Email :: string
  resp_Role :: string
  resp_CreatedAt :: Time
  resp_UpdatedAt :: Time

record UserFilter =
  Keyword :: string
  Roles :: "string list"
  Limit :: int

record BulkCreateResponse =
  CreatedCount :: int32
  UserIds :: "int32 list"
  Errors :: "string list"

datatype MessageType = MESSAGE_TYPE_TEXT | MESSAGE_TYPE_other int

record ChatMessage =
  From :: string
  To :: string
  Message :: string
  Timestamp :: Time
  Type :: MessageType

definition ToProto :: "User \<Rightarrow> UserResponse" where
  "ToProto u =
     \<lparr>resp_Id = ID u, resp_Name = Name u, resp_Email = Email u, resp_Role = Role u,
      resp_CreatedAt = CreatedAt u, resp_UpdatedAt = UpdatedAt u\<rparr>"

definition FromCreateRequest :: "CreateUserRequest \<Rightarrow> int32 \<Rightarrow> Time \<Rightarrow> User" where
  "FromCreateRequest req uid now =
     \<lparr>ID = uid, Name = req_Name req, Email = req_Email req,
      Role = (if req_Role req = [] then ''user'' else req_Role req),
      CreatedAt = now, UpdatedAt = now\<rparr>"

text \<open>\<open>User.Update\<close>: the three guarded assignments in the order of the source, then the
  timestamp.\<close>

definition User_Update :: "User \<Rightarrow> UpdateUserRequest \<Rightarrow> Time \<Rightarrow> User" where
  "User_Update u req now =
     (let u1 = (if upd_Name req \<noteq> [] then u\<lparr>Name := upd_Name req\<rparr> else u);
          u2 = (if upd_Email req \<noteq> [] then u1\<lparr>Email := upd_Email req\<rparr> else u1);
          u3 = (if upd_Role req \<noteq> [] then u2\<lparr>Role := upd_Role req\<rparr> else u2)
      in u3\<lparr>UpdatedAt := now\<rparr>)"

section \<open>The store (internal/repository/user_repository.go)\<close>

datatype repo_error = ErrUserNotFound | ErrEmailExists | ErrInvalidInput

fun Error :: "repo_error \<Rightarrow> string" where
  "Error ErrUserNotFound = ''user not found''"
| "Error ErrEmailExists = ''email already exists''"
| "Error ErrInvalidInput = ''invalid input''"

text \<open>
  The Go map \<open>users\<close> is an association list with one entry per key: \<open>map_of\<close> is the
  lookup, \<open>AList.update\<close> the assignment \<open>r.users[k] = v\<close> (it overwrites the entry of a
  key that is present and adds one otherwise) and \<open>AList.delete\<close> is \<open>delete\<close>. A
  \<open>range\<close> over the map visits the entries in an order Go leaves unspecified; the order of
  the list stands for the order of that visit, and what is proved of a \<open>range\<close> is proved
  for every list, hence for every order. The mutex is not modelled: every method holds it
  for its whole body, so the methods are atomic steps on the state.
\<close>

record InMemoryUserRepository =
  users :: "(int32 \<times> User) list"
  nextID :: int32

definition NewInMemoryUserRepository :: "Time \<Rightarrow> InMemoryUserRepository" where
  "NewInMemoryUserRepository now =
     \<lparr>users =
        [(1, \<lparr>ID = 1, Name = ''John Doe'', Email = ''john@example.com'', Role = ''admin'',
              CreatedAt = now, UpdatedAt = now\<rparr>),
         (2, \<lparr>ID = 2, Name = ''Jane Smith'', Email = ''jane@example.com'', Role = ''user'',
              CreatedAt = now, UpdatedAt = now\<rparr>),
         (3, \<lparr>ID = 3, Name = ''Bob Johnson'', Email = ''bob@example.com'', Role = ''user'',
              CreatedAt = now, UpdatedAt = now\<rparr>)],
      nextID = 4\<rparr>"

definition GetByID :: "InMemoryUserRepository \<Rightarrow> int32 \<Rightarrow> repo_error + User" where
  "GetByID r uid =
     (case map_of (users r) uid of
        None \<Rightarrow> Inl ErrUserNotFound
      | Some user \<Rightarrow> Inr user)"

text \<open>The loop \<open>for _, u := range r.users { if u.Email == email { return ... } }\<close>, which
  \<open>Create\<close> and \<open>EmailExists\<close> both run.\<close>

primrec range_email :: "(int32 \<times> User) list \<Rightarrow> string \<Rightarrow> bool" where
  "range_email [] email = False"
| "range_email (kv # rest) email =
     (if Email (snd kv) = email then True else range_email rest email)"

definition EmailExists :: "InMemoryUserRepository \<Rightarrow> string \<Rightarrow> bool" where
  "EmailExists r email = range_email (users r) email"

text \<open>\<open>Create\<close> returns its error (\<open>None\<close> is \<open>nil\<close>), the user record it was passed, whose
  \<open>ID\<close> it assigns, and the store it leaves.\<close>

definition Create ::
  "InMemoryUserRepository \<Rightarrow> User \<Rightarrow> repo_error option \<times> User \<times> InMemoryUserRepository" where
  "Create r user =
     (if Name user = [] \<or> Email user = [] then (Some ErrInvalidInput, user, r)
      else if range_email (users r) (Email user) then (Some ErrEmailExists, user, r)
      else (None, user\<lparr>ID := nextID r\<rparr>,
            r\<lparr>nextID := nextID r + 1,
              users := AList.update (nextID r) (user\<lparr>ID := nextID r\<rparr>) (users r)\<rparr>))"

definition Update ::
  "InMemoryUserRepository \<Rightarrow> User \<Rightarrow> repo_error option \<times> InMemoryUserRepository" where
  "Update r user =
     (if map_of (users r) (ID user) = None then (Some ErrUserNotFound, r)
      else (None, r\<lparr>users := AList.update (ID user) user (users r)\<rparr>))"

definition Delete ::
  "InMemoryUserRepository \<Rightarrow> int32 \<Rightarrow> repo_error option \<times> InMemoryUserRepository" where
  "Delete r uid =
     (if map_of (users r) uid = None then (Some ErrUserNotFound, r)
      else (None, r\<lparr>users := AList.delete uid (users r)\<rparr>))"

subsection \<open>The string search helpers\<close>

text \<open>A slice expression \<open>s[lo:hi]\<close> panics unless \<open>0 \<le> lo \<le> hi \<le> len(s)\<close>; \<open>None\<close> is the
  panic. Go's \<open>int\<close> is modelled by \<open>int\<close>: the lengths of strings are far from its bounds.\<close>

definition slice :: "string \<Rightarrow> int \<Rightarrow> int \<Rightarrow> string option" where
  "slice s lo hi =
     (if 0 \<le> lo \<and> lo \<le> hi \<and> hi \<le> int (length s)
      then Some (take (nat (hi - lo)) (drop (nat lo) s))
      else None)"

function findSubstring_from :: "string \<Rightarrow> string \<Rightarrow> int \<Rightarrow> bool option" where
  "findSubstring_from s substr i =
     (if i \<le> int (length s) - int (length substr) then
        (case slice s i (i + int (length substr)) of
           None \<Rightarrow> None
         | Some w \<Rightarrow> if w = substr then Some True else findSubstring_from s substr (i + 1))
      else Some False)"
  by pat_completeness auto
termination
  by (relation "measure (\<lambda>(s, substr, i). nat (int (length s) - int (length substr) - i + 1))")
    auto

declare findSubstring_from.simps [simp del]

definition findSubstring :: "string \<Rightarrow> string \<Rightarrow> bool option" where
  "findSubstring s substr = findSubstring_from s substr 0"

text \<open>\<open>contains\<close>, with the short-circuit evaluation of \<open>&&\<close> and \<open>||\<close> written as the
  nesting of the conditionals.\<close>

definition contains :: "string \<Rightarrow> string \<Rightarrow> bool option" where
  "contains s substr =
     (if \<not> length s \<ge> length substr then Some False
      else if s = substr then Some True
      else if \<not> length s > length substr then Some False
      else (case slice s 0 (int (length substr)) of
              None \<Rightarrow> None
            | Some p \<Rightarrow>
                if p = substr then Some True
                else (case slice s (int (length s) - int (length substr)) (int (length s)) of
                        None \<Rightarrow> None
                      | Some q \<Rightarrow> if q = substr then Some True else findSubstring s substr)))"

subsection \<open>List\<close>

text \<open>The inner loop over \<open>filter.Roles\<close>, with its \<open>break\<close>.\<close>

primrec roleMatch :: "string \<Rightarrow> string list \<Rightarrow> bool" where
  "roleMatch user_role [] = False"
| "roleMatch user_role (role # roles) =
     (if user_role = role then True else roleMatch user_role roles)"

text \<open>The condition of the keyword filter, \<open>filter.Keyword != "" && !contains(...)\<close>:
  \<open>contains\<close> is only called for a non-empty keyword.\<close>

definition keyword_skip :: "UserFilter \<Rightarrow> User \<Rightarrow> bool option" where
  "keyword_skip f user =
     (if Keyword f \<noteq> [] then map_option Not (contains (Name user) (Keyword f))
      else Some False)"

text \<open>The loop of \<open>List\<close> over the entries still to visit, with the variables \<open>result\<close> and
  \<open>count\<close>: the two \<open>continue\<close>s go on with the rest, the \<open>break\<close> returns what is
  collected.\<close>

fun List_loop ::
  "UserFilter \<Rightarrow> (int32 \<times> User) list \<Rightarrow> User list \<Rightarrow> int \<Rightarrow> User list option" where
  "List_loop f [] result count = Some result"
| "List_loop f (kv # rest) result count =
     (case keyword_skip f (snd kv) of
        None \<Rightarrow> None
      | Some True \<Rightarrow> List_loop f rest result count
      | Some False \<Rightarrow>
          if length (Roles f) > 0 \<and> \<not> roleMatch (Role (snd kv)) (Roles f)
          then List_loop f rest result count
          else if Limit f > 0 \<and> count \<ge> Limit f then Some result
          else List_loop f rest (result @ [snd kv]) (count + 1))"

definition List :: "InMemoryUserRepository \<Rightarrow> UserFilter \<Rightarrow> User list option" where
  "List r f = List_loop f (users r) [] 0"

section \<open>The service (internal/service/user_service.go)\<close>

text \<open>A gRPC status error is its code and its message. \<open>fmt_d\<close> is the verb \<open>%d\<close> of
  \<open>fmt\<close> on an integer: the decimal digits, after a minus sign for a negative number.\<close>

datatype Code = NotFound | AlreadyExists | InvalidArgument | DeadlineExceeded | Canceled | Internal

datatype Status = Status Code string

fun digits :: "nat \<Rightarrow> string" where
  "digits n =
     (if n < 10 then [char_of (48 + n)] else digits (n div 10) @ [char_of (48 + n mod 10)])"

declare digits.simps [simp del]

definition fmt_d :: "int \<Rightarrow> string" where
  "fmt_d i = (if i < 0 then CHR ''-'' # digits (nat (- i)) else digits (nat i))"

text \<open>The context of a call is what its \<open>Err()\<close> returns when the handler asks: \<open>None\<close> is
  \<open>nil\<close>.\<close>

datatype ctx_error = context_DeadlineExceeded | context_Canceled

type_synonym Context = "ctx_error option"

definition checkContext :: "Context \<Rightarrow> Status option" where
  "checkContext ctx =
     (if ctx = Some context_DeadlineExceeded then Some (Status DeadlineExceeded ''Request timeout'')
      else if ctx = Some context_Canceled then Some (Status Canceled ''Request canceled'')
      else None)"

text \<open>The unary handlers return their result and the store they leave. \<open>uid\<close> is the field
  \<open>Id\<close> of a \<open>UserRequest\<close>.\<close>

definition GetUser :: "Context \<Rightarrow> InMemoryUserRepository \<Rightarrow> int32 \<Rightarrow> Status + UserResponse" where
  "GetUser ctx r uid =
     (case checkContext ctx of
        Some err \<Rightarrow> Inl err
      | None \<Rightarrow>
          (case GetByID r uid of
             Inl err \<Rightarrow>
               if err = ErrUserNotFound
               then Inl (Status NotFound (''User ID='' @ fmt_d (sint uid) @ '' not found''))
               else Inl (Status Internal (''Failed to get user: '' @ Error err))
           | Inr user \<Rightarrow> Inr (ToProto user)))"

definition CreateUser ::
  "Context \<Rightarrow> InMemoryUserRepository \<Rightarrow> CreateUserRequest \<Rightarrow> Time \<Rightarrow>
     (Status + UserResponse) \<times> InMemoryUserRepository" where
  "CreateUser ctx r req now =
     (case checkContext ctx of
        Some err \<Rightarrow> (Inl err, r)
      | None \<Rightarrow>
          (case Create r (FromCreateRequest req 0 now) of
             (Some err, user, r') \<Rightarrow>
               (case err of
                  ErrInvalidInput \<Rightarrow>
                    (Inl (Status InvalidArgument ''Name and email are required''), r')
                | ErrEmailExists \<Rightarrow>
                    (Inl (Status AlreadyExists (''Email '' @ req_Email req @ '' already in use'')), r')
                | ErrUserNotFound \<Rightarrow>
                    (Inl (Status Internal (''Failed to create user: '' @ Error err)), r'))
           | (None, user, r') \<Rightarrow> (Inr (ToProto user), r')))"

definition UpdateUser ::
  "Context \<Rightarrow> InMemoryUserRepository \<Rightarrow> UpdateUserRequest \<Rightarrow> Time \<Rightarrow>
     (Status + UserResponse) \<times> InMemoryUserRepository" where
  "UpdateUser ctx r req now =
     (case checkContext ctx of
        Some err \<Rightarrow> (Inl err, r)
      | None \<Rightarrow>
          (case GetByID r (upd_Id req) of
             Inl err \<Rightarrow>
               if err = ErrUserNotFound
               then (Inl (Status NotFound (''User ID='' @ fmt_d (sint (upd_Id req)) @ '' not found'')), r)
               else (Inl (Status Internal (''Failed to get user: '' @ Error err)), r)
           | Inr user \<Rightarrow>
               (case Update r (User_Update user req now) of
                  (Some err, r') \<Rightarrow>
                    (Inl (Status Internal (''Failed to update user: '' @ Error err)), r')
                | (None, r') \<Rightarrow> (Inr (ToProto (User_Update user req now)), r'))))"

definition DeleteUser ::
  "Context \<Rightarrow> InMemoryUserRepository \<Rightarrow> int32 \<Rightarrow> Status option \<times> InMemoryUserRepository" where
  "DeleteUser ctx r uid =
     (case checkContext ctx of
        Some err \<Rightarrow> (Some err, r)
      | None \<Rightarrow>
          (case Delete r uid of
             (Some err, r') \<Rightarrow>
               if err = ErrUserNotFound
               then (Some (Status NotFound (''User ID='' @ fmt_d (sint uid) @ '' not found'')), r')
               else (Some (Status Internal (''Failed to delete user: '' @ Error err)), r')
           | (None, r') \<Rightarrow> (None, r')))"

subsection \<open>Bulk ingest\<close>

text \<open>
  The client stream is the list of requests \<open>Recv\<close> delivers, each with the reading of the
  clock when it is converted, and the way the stream ends: \<open>io.EOF\<close>, or another error of
  the transport. The loop carries the store and the three variables \<open>createdCount\<close>,
  \<open>userIDs\<close> and \<open>errors\<close>; at \<open>io.EOF\<close> the result is the response handed to
  \<open>SendAndClose\<close>, at another error the error.
\<close>

datatype recv_end = io_EOF | recv_error string

fun CreateUsers_loop ::
  "InMemoryUserRepository \<Rightarrow> (CreateUserRequest \<times> Time) list \<Rightarrow> recv_end \<Rightarrow>
     int32 \<Rightarrow> int32 list \<Rightarrow> string list \<Rightarrow>
     (string + BulkCreateResponse) \<times> InMemoryUserRepository" where
  "CreateUsers_loop r [] io_EOF createdCount userIDs errors =
     (Inr \<lparr>CreatedCount = createdCount, UserIds = userIDs, Errors = errors\<rparr>, r)"
| "CreateUsers_loop r [] (recv_error e) createdCount userIDs errors = (Inl e, r)"
| "CreateUsers_loop r (item # rest) fin createdCount userIDs errors =
     (case Create r (FromCreateRequest (fst item) 0 (snd item)) of
        (Some err, user, r') \<Rightarrow>
          CreateUsers_loop r' rest fin createdCount userIDs
            (errors @ [''Email '' @ req_Email (fst item) @ '': '' @ Error err])
      | (None, user, r') \<Rightarrow>
          CreateUsers_loop r' rest fin (createdCount + 1) (userIDs @ [ID user]) errors)"

definition CreateUsers ::
  "InMemoryUserRepository \<Rightarrow> (CreateUserRequest \<times> Time) list \<Rightarrow> recv_end \<Rightarrow>
     (string + BulkCreateResponse) \<times> InMemoryUserRepository" where
  "CreateUsers r items fin = CreateUsers_loop r items fin 0 [] []"

subsection \<open>Chat: the receiving goroutine\<close>

text \<open>
  The goroutine that receives and echoes, run on the messages \<open>Recv\<close> delivers before it
  fails: each comes with the reading of the clock when the response is built and with
  whether \<open>Send\<close> accepts the response. The result is the list of the responses handed to
  \<open>Send\<close>; the goroutine returns after the first one \<open>Send\<close> refuses. The heartbeat
  goroutine shares no variable with it and is not modelled.
\<close>

fun Chat_recv :: "(ChatMessage \<times> Time \<times> bool) list \<Rightarrow> ChatMessage list" where
  "Chat_recv [] = []"
| "Chat_recv ((msg, now, send_ok) # rest) =
     \<lparr>From = ''Server'', To = From msg, Message = ''Echo: '' @ Message msg,
      Timestamp = now, Type = MESSAGE_TYPE_TEXT\<rparr>
     # (if send_ok then Chat_recv rest else [])"

section \<open>Reference definitions\<close>

subsection \<open>The query engine\<close>

text \<open>
  What the specification says of the query engine, in its own words. \<open>substring_of\<close> is
  substring containment; \<open>occurs_at\<close> says that the pattern stands at a given offset.
  \<open>matches\<close> is the keyword test (on the name, case-sensitive, an empty keyword matches
  all) and the role test (an empty set matches all); \<open>List_spec\<close> keeps the matching users
  in the order of the visit and truncates to \<open>Limit\<close> of them when the limit is positive.
\<close>

definition substring_of :: "string \<Rightarrow> string \<Rightarrow> bool" where
  "substring_of substr s = (\<exists>ps ss. s = ps @ substr @ ss)"

definition occurs_at :: "string \<Rightarrow> string \<Rightarrow> nat \<Rightarrow> bool" where
  "occurs_at s substr j =
     (j + length substr \<le> length s \<and> take (length substr) (drop j s) = substr)"

definition matches :: "UserFilter \<Rightarrow> User \<Rightarrow> bool" where
  "matches f u =
     ((Keyword f = [] \<or> substring_of (Keyword f) (Name u)) \<and>
      (Roles f = [] \<or> Role u \<in> set (Roles f)))"

definition List_spec :: "InMemoryUserRepository \<Rightarrow> UserFilter \<Rightarrow> User list" where
  "List_spec r f =
     (if Limit f > 0 then take (nat (Limit f)) (filter (matches f) (map snd (users r)))
      else filter (matches f) (map snd (users r)))"

subsection \<open>Bulk ingest, item by item\<close>

text \<open>
  What the specification says of bulk ingest: every item, in the order of arrival, goes
  through \<open>FromCreateRequest\<close> and \<open>Create\<close> on the store the item before it left.
  \<open>Create_item\<close> is that path for one item; \<open>Create_each\<close> lists, for every item, the
  item, the error of its \<open>Create\<close> (\<open>None\<close> is success) and the user record after it;
  \<open>store_after\<close> is the store the last item leaves. \<open>created_ids\<close> are the IDs of the
  successes and \<open>failure_messages\<close> the messages of the failures, both in the order of
  processing.
\<close>

definition Create_item ::
  "InMemoryUserRepository \<Rightarrow> CreateUserRequest \<times> Time \<Rightarrow>
     repo_error option \<times> User \<times> InMemoryUserRepository" where
  "Create_item r item = Create r (FromCreateRequest (fst item) 0 (snd item))"

fun Create_each ::
  "InMemoryUserRepository \<Rightarrow> (CreateUserRequest \<times> Time) list \<Rightarrow>
     ((CreateUserRequest \<times> Time) \<times> repo_error option \<times> User) list" where
  "Create_each r [] = []"
| "Create_each r (item # rest) =
     (item, fst (Create_item r item), fst (snd (Create_item r item)))
     # Create_each (snd (snd (Create_item r item))) rest"

fun store_after ::
  "InMemoryUserRepository \<Rightarrow> (CreateUserRequest \<times> Time) list \<Rightarrow> InMemoryUserRepository" where
  "store_after r [] = r"
| "store_after r (item # rest) = store_after (snd (snd (Create_item r item))) rest"

definition created_ids ::
  "((CreateUserRequest \<times> Time) \<times> repo_error option \<times> User) list \<Rightarrow> int32 list" where
  "created_ids outs = map (\<lambda>out. ID (snd (snd out))) (filter (\<lambda>out. fst (snd out) = None) outs)"

definition failure_messages ::
  "((CreateUserRequest \<times> Time) \<times> repo_error option \<times> User) list \<Rightarrow> string list" where
  "failure_messages outs =
     concat (map (\<lambda>out. case fst (snd out) of
                          None \<Rightarrow> []
                        | Some err \<Rightarrow> [''Email '' @ req_Email (fst (fst out)) @ '': '' @ Error err])
                 outs)"

text \<open>
  The next \<open>n\<close> values of the counter are fresh when none of them is the ID of a live
  user and they are pairwise different: the next \<open>n\<close> calls of \<open>Create\<close> that succeed add
  a record each and overwrite none. The seeded store is in this state for its next
  \<open>2^32 - 4\<close> values (\<open>seeded_fresh_ids\<close> below), and a store reached from it stays so as
  long as the counter has not gone around.
\<close>

definition fresh_ids :: "InMemoryUserRepository \<Rightarrow> nat \<Rightarrow> bool" where
  "fresh_ids r n =
     (n \<le> 2 ^ 32 \<and> list_all (\<lambda>i. nextID r + word_of_nat i \<notin> fst ` set (users r)) [0..<n])"

subsection \<open>Runs of the store\<close>

text \<open>
  Sequences of calls to the store. \<open>assigned_ids\<close> runs creations and deletions in order,
  each on the store the call before it left, and lists the IDs that the successful
  creations assigned.
\<close>

datatype store_op = OpCreate User | OpDelete int32

fun assigned_ids :: "InMemoryUserRepository \<Rightarrow> store_op list \<Rightarrow> int32 list" where
  "assigned_ids r [] = []"
| "assigned_ids r (OpCreate user # ops) =
     (case fst (Create r user) of
        None \<Rightarrow> ID (fst (snd (Create r user))) # assigned_ids (snd (snd (Create r user))) ops
      | Some err \<Rightarrow> assigned_ids (snd (snd (Create r user))) ops)"
| "assigned_ids r (OpDelete uid # ops) = assigned_ids (snd (Delete r uid)) ops"

text \<open>\<open>store_of\<close> is the store such a run leaves.\<close>

fun store_of :: "InMemoryUserRepository \<Rightarrow> store_op list \<Rightarrow> InMemoryUserRepository" where
  "store_of r [] = r"
| "store_of r (OpCreate user # ops) = store_of (snd (snd (Create r user))) ops"
| "store_of r (OpDelete uid # ops) = store_of (snd (Delete r uid)) ops"

text \<open>
  A long run: round \<open>i\<close> creates a valid user whose email is \<open>u\<close>, the binary digits of
  \<open>i\<close> (lowest first) and \<open>@example.com\<close>, and then deletes the ID the counter of the
  seeded store has reached after \<open>i\<close> creations, so that the store holds the three seeded
  users again. \<open>wrap_ops\<close> is \<open>2^31 - 3\<close> such rounds. \<open>bits_value\<close> reads the digits
  back.
\<close>

fun bits :: "nat \<Rightarrow> string" where
  "bits n = (if n = 0 then [] else (if even n then CHR ''0'' else CHR ''1'') # bits (n div 2))"

declare bits.simps [simp del]

primrec bits_value :: "string \<Rightarrow> nat" where
  "bits_value [] = 0"
| "bits_value (c # cs) = (if c = CHR ''1'' then 1 else 0) + 2 * bits_value cs"

definition wrap_email :: "nat \<Rightarrow> string" where
  "wrap_email i = ''u'' @ bits i @ ''@example.com''"

definition wrap_user :: "nat \<Rightarrow> User" where
  "wrap_user i =
     \<lparr>ID = 0, Name = ''U'', Email = wrap_email i, Role = ''user'', CreatedAt = 0, UpdatedAt = 0\<rparr>"

primrec wrap_cycles :: "nat \<Rightarrow> nat \<Rightarrow> store_op list" where
  "wrap_cycles i 0 = []"
| "wrap_cycles i (Suc n) =
     OpCreate (wrap_user i) # OpDelete (4 + word_of_nat i) # wrap_cycles (Suc i) n"

definition wrap_ops :: "store_op list" where
  "wrap_ops = wrap_cycles 0 2147483645"

subsection \<open>Email uniqueness\<close>

text \<open>No two entries of the store have the same email.\<close>

definition unique_emails :: "InMemoryUserRepository \<Rightarrow> bool" where
  "unique_emails r = distinct (map (\<lambda>kv. Email (snd kv)) (users r))"

section \<open>The string search\<close>

lemma substring_of_occurs: "substring_of substr s = (\<exists>j. occurs_at s substr j)"
proof
  assume "substring_of substr s"
  then obtain ps ss where "s = ps @ substr @ ss" by (auto simp: substring_of_def)
  then have "occurs_at s substr (length ps)" by (simp add: occurs_at_def)
  then show "\<exists>j. occurs_at s substr j" ..
next
  assume "\<exists>j. occurs_at s substr j"
  then obtain j where j: "j + length substr \<le> length s" "take (length substr) (drop j s) = substr"
    by (auto simp: occurs_at_def)
  have "s = take j s @ take (length substr) (drop j s) @ drop (length substr) (drop j s)"
    by (metis append_take_drop_id)
  with j(2) have "s = take j s @ substr @ drop (length substr) (drop j s)" by simp
  then show "substring_of substr s" unfolding substring_of_def by blast
qed

text \<open>Inside the bounds of the loop the slice of \<open>findSubstring\<close> does not panic.\<close>

lemma slice_window:
  "0 \<le> i \<Longrightarrow> i \<le> int (length s) - int (length substr) \<Longrightarrow>
   slice s i (i + int (length substr)) = Some (take (length substr) (drop (nat i) s))"
  by (simp add: slice_def)

lemma findSubstring_from_correct:
  "0 \<le> i \<Longrightarrow> findSubstring_from s substr i = Some (\<exists>j\<ge>nat i. occurs_at s substr j)"
proof (induction s substr i rule: findSubstring_from.induct)
  case (1 s substr i)
  show ?case
  proof (cases "i \<le> int (length s) - int (length substr)")
    case False
    then have "\<not> (\<exists>j\<ge>nat i. occurs_at s substr j)" using "1.prems"
      by (auto simp: occurs_at_def)
    with False show ?thesis by (subst findSubstring_from.simps) simp
  next
    case True
    note w = slice_window[OF "1.prems" True]
    show ?thesis
    proof (cases "take (length substr) (drop (nat i) s) = substr")
      case hit: True
      then have "occurs_at s substr (nat i)" using True "1.prems" by (auto simp: occurs_at_def)
      then have "\<exists>j\<ge>nat i. occurs_at s substr j" by blast
      with True w hit show ?thesis by (subst findSubstring_from.simps) simp
    next
      case miss: False
      have ih: "findSubstring_from s substr (i + 1) = Some (\<exists>j\<ge>nat (i + 1). occurs_at s substr j)"
        using "1.IH"[OF True w] miss "1.prems" by simp
      have "(\<exists>j\<ge>nat i. occurs_at s substr j) = (\<exists>j\<ge>nat (i + 1). occurs_at s substr j)"
      proof
        assume "\<exists>j\<ge>nat i. occurs_at s substr j"
        then obtain j where j: "j \<ge> nat i" "occurs_at s substr j" by blast
        with miss have "j \<noteq> nat i" by (auto simp: occurs_at_def)
        with j have "j \<ge> nat (i + 1)" using "1.prems" by linarith
        with j show "\<exists>j\<ge>nat (i + 1). occurs_at s substr j" by blast
      next
        assume "\<exists>j\<ge>nat (i + 1). occurs_at s substr j"
        then obtain j where j: "j \<ge> nat (i + 1)" "occurs_at s substr j" by blast
        then have "j \<ge> nat i" by linarith
        with j show "\<exists>j\<ge>nat i. occurs_at s substr j" by blast
      qed
      with True w miss ih show ?thesis by (subst findSubstring_from.simps) simp
    qed
  qed
qed

lemma findSubstring_correct: "findSubstring s substr = Some (substring_of substr s)"
  using findSubstring_from_correct[of 0 s substr]
  by (simp add: findSubstring_def substring_of_occurs)

lemma substring_of_prefix: "take (length substr) s = substr \<Longrightarrow> substring_of substr s"
  unfolding substring_of_def by (metis append_Nil append_take_drop_id)

lemma substring_of_suffix:
  "drop (length s - length substr) s = substr \<Longrightarrow> substring_of substr s"
  unfolding substring_of_def by (metis append_Nil2 append_take_drop_id)

lemma substring_of_length: "substring_of substr s \<Longrightarrow> length substr \<le> length s"
  by (auto simp: substring_of_def)

lemma substring_of_same_length:
  "substring_of substr s \<Longrightarrow> length s \<le> length substr \<Longrightarrow> s = substr"
  by (auto simp: substring_of_def)

lemma substring_of_refl: "substring_of s s"
  unfolding substring_of_def by (metis append_Nil append_Nil2)

lemma contains_correct: "contains s substr = Some (substring_of substr s)"
proof (cases "length substr \<le> length s")
  case False
  then show ?thesis using substring_of_length by (auto simp: contains_def)
next
  case le: True
  show ?thesis
  proof (cases "s = substr")
    case True
    then show ?thesis using le by (simp add: contains_def substring_of_refl)
  next
    case ne: False
    show ?thesis
    proof (cases "length substr < length s")
      case False
      with le ne show ?thesis using substring_of_same_length[of substr s]
        by (auto simp: contains_def)
    next
      case lt: True
      have p: "slice s 0 (int (length substr)) = Some (take (length substr) s)"
        using lt by (simp add: slice_def)
      have q: "slice s (int (length s) - int (length substr)) (int (length s))
                 = Some (drop (length s - length substr) s)"
        using lt by (simp add: slice_def nat_diff_distrib')
      show ?thesis
        using le ne lt p q substring_of_prefix[of substr s] substring_of_suffix[of s substr]
        by (auto simp: contains_def findSubstring_correct)
    qed
  qed
qed

section \<open>The loop of List\<close>

lemma roleMatch_iff: "roleMatch user_role roles = (user_role \<in> set roles)"
  by (induction roles) auto

lemma keyword_skip_eq:
  "keyword_skip f u = Some (\<not> (Keyword f = [] \<or> substring_of (Keyword f) (Name u)))"
  by (simp add: keyword_skip_def contains_correct)

lemma List_loop_unbounded:
  "\<not> Limit f > 0 \<Longrightarrow>
   List_loop f us result count = Some (result @ filter (matches f) (map snd us))"
proof (induction us arbitrary: result count)
  case Nil
  then show ?case by simp
next
  case (Cons kv us)
  then show ?case
    by (simp add: keyword_skip_eq roleMatch_iff matches_def)
qed

text \<open>With a positive limit the loop keeps \<open>count\<close> equal to the length of \<open>result\<close>, and
  never above the limit.\<close>

lemma List_loop_bounded:
  "Limit f > 0 \<Longrightarrow> int (length result) \<le> Limit f \<Longrightarrow>
   List_loop f us result (int (length result))
     = Some (take (nat (Limit f)) (result @ filter (matches f) (map snd us)))"
proof (induction us arbitrary: result)
  case Nil
  then show ?case by simp
next
  case (Cons kv us)
  show ?case
  proof (cases "matches f (snd kv)")
    case False
    then show ?thesis using Cons
      by (auto simp: keyword_skip_eq roleMatch_iff matches_def)
  next
    case m: True
    show ?thesis
    proof (cases "int (length result) \<ge> Limit f")
      case True
      with Cons.prems have "nat (Limit f) = length result" by linarith
      then show ?thesis using m True Cons.prems
        by (auto simp: keyword_skip_eq roleMatch_iff matches_def)
    next
      case False
      then have le: "int (length (result @ [snd kv])) \<le> Limit f" by simp
      have "List_loop f (kv # us) result (int (length result))
              = List_loop f us (result @ [snd kv]) (int (length (result @ [snd kv])))"
        using m False Cons.prems
        by (auto simp: keyword_skip_eq roleMatch_iff matches_def add.commute)
      also have "\<dots> = Some (take (nat (Limit f)) ((result @ [snd kv]) @ filter (matches f) (map snd us)))"
        by (rule Cons.IH[OF Cons.prems(1) le])
      finally show ?thesis using m by simp
    qed
  qed
qed

lemma List_eq_spec: "List r f = Some (List_spec r f)"
proof (cases "Limit f > 0")
  case True
  then show ?thesis using List_loop_bounded[of f "[]" "users r"]
    by (simp add: List_def List_spec_def)
next
  case False
  then show ?thesis using List_loop_unbounded[of f "users r" "[]" 0]
    by (simp add: List_def List_spec_def)
qed

text \<open>
  C2, as amended. \<open>List\<close> returns (no slice of the string search panics); with a positive
  limit \<open>N\<close> it returns at most \<open>N\<close> records, whatever the store and the rest of the filter;
  with a limit of zero (or below) it returns every matching record, so the bound \<open>N\<close> does
  not hold for \<open>N = 0\<close>.
\<close>

theorem List_limit:
  "\<exists>us. List r f = Some us \<and>
      (0 < Limit f \<longrightarrow> int (length us) \<le> Limit f) \<and>
      (Limit f \<le> 0 \<longrightarrow> us = filter (matches f) (map snd (users r)))"
  by (auto simp: List_eq_spec List_spec_def)

theorem List_limit_witness:
  "(0::int) < 1 \<and>
   (\<exists>us. List (NewInMemoryUserRepository 0) \<lparr>Keyword = [], Roles = [''user''], Limit = 1\<rparr> = Some us \<and>
      length us \<le> 1)"
  using List_limit[of "NewInMemoryUserRepository 0" "\<lparr>Keyword = [], Roles = [''user''], Limit = 1\<rparr>"]
  by auto

text \<open>C2 as stated fails for \<open>N = 0\<close>: on the seeded store the filter with limit 0 and no
  other criterion returns the three users.\<close>

theorem List_limit_zero_counterexample:
  "List (NewInMemoryUserRepository 0) \<lparr>Keyword = [], Roles = [], Limit = 0\<rparr>
     = Some (map snd (users (NewInMemoryUserRepository 0))) \<and>
   length (map snd (users (NewInMemoryUserRepository 0))) = 3 \<and>
   \<not> (3::int) \<le> 0"
  by (simp add: List_def NewInMemoryUserRepository_def keyword_skip_def)

text \<open>
  C4. For every store and every filter \<open>List\<close> returns exactly the users that
  \<open>List_spec\<close> describes: those whose name contains the keyword (an empty keyword keeps
  all) and whose role is in the role set (an empty set keeps all), in the order of the
  visit, truncated to the limit when it is positive. The hand-rolled \<open>contains\<close> decides
  substring containment for every pair of strings, and never panics.
\<close>

theorem List_filters_and_truncates:
  "List r f = Some (List_spec r f) \<and> contains s substr = Some (substring_of substr s)"
  by (simp add: List_eq_spec contains_correct)

theorem List_filters_and_truncates_witness:
  "List (NewInMemoryUserRepository 0) \<lparr>Keyword = ''Smith'', Roles = [''user'', ''admin''], Limit = 1\<rparr>
     = Some [\<lparr>ID = 2, Name = ''Jane Smith'', Email = ''jane@example.com'', Role = ''user'',
              CreatedAt = 0, UpdatedAt = 0\<rparr>] \<and>
   List_spec (NewInMemoryUserRepository 0) \<lparr>Keyword = ''Smith'', Roles = [''user'', ''admin''], Limit = 1\<rparr>
     = [\<lparr>ID = 2, Name = ''Jane Smith'', Email = ''jane@example.com'', Role = ''user'',
              CreatedAt = 0, UpdatedAt = 0\<rparr>] \<and>
   contains ''Bob Johnson'' ''John'' = Some True \<and> substring_of ''John'' ''Bob Johnson''"
proof -
  have a: "List (NewInMemoryUserRepository 0) \<lparr>Keyword = ''Smith'', Roles = [''user'', ''admin''], Limit = 1\<rparr>
     = Some [\<lparr>ID = 2, Name = ''Jane Smith'', Email = ''jane@example.com'', Role = ''user'',
              CreatedAt = 0, UpdatedAt = 0\<rparr>]"
    by (simp add: List_def NewInMemoryUserRepository_def keyword_skip_def contains_def slice_def
        findSubstring_def findSubstring_from.simps)
  have b: "contains ''Bob Johnson'' ''John'' = Some True"
    by (simp add: contains_def slice_def findSubstring_def findSubstring_from.simps)
  show ?thesis
    using a b List_filters_and_truncates[of "NewInMemoryUserRepository 0"
        "\<lparr>Keyword = ''Smith'', Roles = [''user'', ''admin''], Limit = 1\<rparr>" "''Bob Johnson''" "''John''"]
    by simp
qed

section \<open>The store: Create and Update\<close>

lemma range_email_iff: "range_email us email = (\<exists>kv\<in>set us. Email (snd kv) = email)"
  by (induction us) auto

text \<open>
  C6. \<open>Create\<close> on a user with an empty name or an empty email fails with
  \<open>ErrInvalidInput\<close>, whether or not the email is taken; with both non-empty and the email
  of a live user it fails with \<open>ErrEmailExists\<close>, whatever the name and the role; otherwise
  it succeeds, gives the user the value of the counter as its ID, advances the counter by
  one and stores the record under that ID.
\<close>

theorem Create_outcomes:
  "(Name user = [] \<or> Email user = [] \<longrightarrow> fst (Create r user) = Some ErrInvalidInput) \<and>
   (Name user \<noteq> [] \<and> Email user \<noteq> [] \<and> (k, u) \<in> set (users r) \<and> Email u = Email user
      \<longrightarrow> fst (Create r user) = Some ErrEmailExists) \<and>
   (Name user \<noteq> [] \<and> Email user \<noteq> [] \<and> (\<forall>kv\<in>set (users r). Email (snd kv) \<noteq> Email user)
      \<longrightarrow> Create r user
            = (None, user\<lparr>ID := nextID r\<rparr>,
               \<lparr>users = AList.update (nextID r) (user\<lparr>ID := nextID r\<rparr>) (users r),
                nextID = nextID r + 1\<rparr>)
          \<and> map_of (users (snd (snd (Create r user)))) (nextID r) = Some (user\<lparr>ID := nextID r\<rparr>))"
  by (auto simp: Create_def range_email_iff update_conv')

theorem Create_outcomes_witness:
  "fst (Create (NewInMemoryUserRepository 0)
         \<lparr>ID = 0, Name = [], Email = ''john@example.com'', Role = ''user'', CreatedAt = 1, UpdatedAt = 1\<rparr>)
     = Some ErrInvalidInput \<and>
   fst (Create (NewInMemoryUserRepository 0)
         \<lparr>ID = 0, Name = ''Test'', Email = ''john@example.com'', Role = ''user'', CreatedAt = 1, UpdatedAt = 1\<rparr>)
     = Some ErrEmailExists \<and>
   map_of (users (snd (snd (Create (NewInMemoryUserRepository 0)
         \<lparr>ID = 0, Name = ''Alice'', Email = ''alice@example.com'', Role = ''user'', CreatedAt = 1, UpdatedAt = 1\<rparr>)))) 4
     = Some \<lparr>ID = 4, Name = ''Alice'', Email = ''alice@example.com'', Role = ''user'', CreatedAt = 1, UpdatedAt = 1\<rparr>"
  using
    Create_outcomes[where user = "\<lparr>ID = 0, Name = [], Email = ''john@example.com'', Role = ''user'', CreatedAt = 1, UpdatedAt = 1\<rparr>"
      and r = "NewInMemoryUserRepository 0"]
    Create_outcomes[where user = "\<lparr>ID = 0, Name = ''Test'', Email = ''john@example.com'', Role = ''user'', CreatedAt = 1, UpdatedAt = 1\<rparr>"
      and k = 1 and u = "\<lparr>ID = 1, Name = ''John Doe'', Email = ''john@example.com'', Role = ''admin'', CreatedAt = 0, UpdatedAt = 0\<rparr>"
      and r = "NewInMemoryUserRepository 0"]
    Create_outcomes[where user = "\<lparr>ID = 0, Name = ''Alice'', Email = ''alice@example.com'', Role = ''user'', CreatedAt = 1, UpdatedAt = 1\<rparr>"
      and r = "NewInMemoryUserRepository 0"]
  by (simp add: NewInMemoryUserRepository_def)

text \<open>
  C7. When the ID of the request has no live record, \<open>UpdateUser\<close> called with a live
  context fails with \<open>NotFound\<close>; whatever the context it fails and returns the store as
  it was, contents and counter; and \<open>Update\<close> of the store on a record with that ID fails
  with \<open>ErrUserNotFound\<close> and leaves the store as it was.
\<close>

theorem UpdateUser_missing:
  "map_of (users r) (upd_Id req) = None \<Longrightarrow>
   UpdateUser None r req now
     = (Inl (Status NotFound (''User ID='' @ fmt_d (sint (upd_Id req)) @ '' not found'')), r) \<and>
   snd (UpdateUser ctx r req now) = r \<and>
   (\<exists>st. fst (UpdateUser ctx r req now) = Inl st) \<and>
   (ID user = upd_Id req \<longrightarrow> Update r user = (Some ErrUserNotFound, r))"
  by (auto simp: UpdateUser_def GetByID_def Update_def checkContext_def split: option.splits)

theorem UpdateUser_missing_witness:
  "map_of (users (NewInMemoryUserRepository 0)) 99 = None \<and>
   UpdateUser None (NewInMemoryUserRepository 0)
       \<lparr>upd_Id = 99, upd_Name = ''X'', upd_Email = [], upd_Role = []\<rparr> 5
     = (Inl (Status NotFound ''User ID=99 not found''), NewInMemoryUserRepository 0)"
proof -
  have h: "map_of (users (NewInMemoryUserRepository 0))
             (upd_Id \<lparr>upd_Id = 99, upd_Name = ''X'', upd_Email = [], upd_Role = []\<rparr>) = None"
    by (simp add: NewInMemoryUserRepository_def)
  have d: "fmt_d (sint (99::int32)) = ''99''"
    by code_simp
  show ?thesis
    using h d UpdateUser_missing[OF h, where now = 5 and ctx = None
        and user = "\<lparr>ID = 99, Name = ''X'', Email = [], Role = [], CreatedAt = 0, UpdatedAt = 0\<rparr>"]
    by simp
qed

text \<open>
  C8. For a user stored under its own ID, an update request with that ID whose name and
  email are empty and whose role is not, handled when the clock has moved on since the
  user's last update: the stored user keeps its name, email, ID and creation timestamp,
  has the requested role, and its last-update timestamp is the reading of the clock,
  later than the one before. The handler returns that record.
\<close>

theorem UpdateUser_role_only:
  "map_of (users r) (upd_Id req) = Some u \<Longrightarrow> ID u = upd_Id req \<Longrightarrow>
   upd_Name req = [] \<Longrightarrow> upd_Email req = [] \<Longrightarrow> upd_Role req \<noteq> [] \<Longrightarrow>
   UpdatedAt u < now \<Longrightarrow>
   (\<exists>u'. map_of (users (snd (UpdateUser None r req now))) (upd_Id req) = Some u' \<and>
      fst (UpdateUser None r req now) = Inr (ToProto u') \<and>
      u' = User_Update u req now \<and>
      Name u' = Name u \<and> Email u' = Email u \<and> ID u' = ID u \<and> CreatedAt u' = CreatedAt u \<and>
      Role u' = upd_Role req \<and> UpdatedAt u' = now \<and> UpdatedAt u < UpdatedAt u')"
  by (simp add: UpdateUser_def GetByID_def Update_def checkContext_def User_Update_def update_conv')

theorem UpdateUser_role_only_witness:
  "map_of (users (snd (UpdateUser None (NewInMemoryUserRepository 0)
       \<lparr>upd_Id = 2, upd_Name = [], upd_Email = [], upd_Role = ''admin''\<rparr> 7))) 2
     = Some \<lparr>ID = 2, Name = ''Jane Smith'', Email = ''jane@example.com'', Role = ''admin'',
             CreatedAt = 0, UpdatedAt = 7\<rparr>"
  using UpdateUser_role_only[of "NewInMemoryUserRepository 0"
      "\<lparr>upd_Id = 2, upd_Name = [], upd_Email = [], upd_Role = ''admin''\<rparr>"
      "\<lparr>ID = 2, Name = ''Jane Smith'', Email = ''jane@example.com'', Role = ''user'',
             CreatedAt = 0, UpdatedAt = 0\<rparr>" 7]
  by (simp add: NewInMemoryUserRepository_def User_Update_def)

section \<open>Chat: the echo\<close>

lemma Chat_recv_nth:
  "i < length (Chat_recv evs) \<Longrightarrow>
   Chat_recv evs ! i
     = \<lparr>From = ''Server'', To = From (fst (evs ! i)), Message = ''Echo: '' @ Message (fst (evs ! i)),
        Timestamp = fst (snd (evs ! i)), Type = MESSAGE_TYPE_TEXT\<rparr>"
proof (induction evs arbitrary: i rule: Chat_recv.induct)
  case 1
  then show ?case by simp
next
  case (2 msg now send_ok rest)
  then show ?case by (cases i) (auto split: if_splits)
qed

text \<open>The goroutine answers the messages up to and including the first one whose response
  \<open>Send\<close> refuses.\<close>

lemma Chat_recv_length_iff:
  "(i < length (Chat_recv evs))
     = (i < length evs \<and> list_all (\<lambda>ev. snd (snd ev)) (take i evs))"
proof (induction evs arbitrary: i rule: Chat_recv.induct)
  case 1
  show ?case by simp
next
  case (2 msg now send_ok rest)
  show ?case
  proof (cases i)
    case 0
    then show ?thesis by simp
  next
    case (Suc k)
    show ?thesis
    proof (cases send_ok)
      case True
      then show ?thesis using "2.IH"[OF True, of k] Suc by simp
    next
      case False
      then show ?thesis using Suc by simp
    qed
  qed
qed

text \<open>
  C3, as amended. The goroutine hands a response to \<open>Send\<close> for the \<open>i\<close>-th inbound
  message exactly when that message arrives and \<open>Send\<close> accepted the responses to all the
  messages before it; so every inbound message is answered as long as no \<open>Send\<close> has
  failed. That \<open>i\<close>-th response answers the \<open>i\<close>-th message: its recipient is the sender
  of the message, its sender is the fixed label \<open>Server\<close>, and its body is the marker
  \<open>Echo: \<close> followed by the body of the message. Its sender is the recipient of the
  inbound message exactly when that recipient is \<open>Server\<close>.
\<close>

theorem Chat_echo_reply:
  "(i < length (Chat_recv evs))
     = (i < length evs \<and> list_all (\<lambda>ev. snd (snd ev)) (take i evs)) \<and>
   (i < length evs \<and> list_all (\<lambda>ev. snd (snd ev)) (take i evs) \<longrightarrow>
      From (Chat_recv evs ! i) = ''Server'' \<and>
      To (Chat_recv evs ! i) = From (fst (evs ! i)) \<and>
      Message (Chat_recv evs ! i) = ''Echo: '' @ Message (fst (evs ! i)) \<and>
      (From (Chat_recv evs ! i) = To (fst (evs ! i))) = (To (fst (evs ! i)) = ''Server''))"
proof (intro conjI impI)
  show "(i < length (Chat_recv evs))
     = (i < length evs \<and> list_all (\<lambda>ev. snd (snd ev)) (take i evs))"
    by (rule Chat_recv_length_iff)
next
  assume "i < length evs \<and> list_all (\<lambda>ev. snd (snd ev)) (take i evs)"
  then have i: "i < length (Chat_recv evs)" by (simp only: Chat_recv_length_iff)
  show "From (Chat_recv evs ! i) = ''Server''"
    and "To (Chat_recv evs ! i) = From (fst (evs ! i))"
    and "Message (Chat_recv evs ! i) = ''Echo: '' @ Message (fst (evs ! i))"
    and "(From (Chat_recv evs ! i) = To (fst (evs ! i))) = (To (fst (evs ! i)) = ''Server'')"
    by (auto simp: Chat_recv_nth[OF i])
qed

theorem Chat_echo_reply_witness:
  "length (Chat_recv
       [(\<lparr>From = ''Ann'', To = ''Server'', Message = ''Message 1'', Timestamp = 0,
           Type = MESSAGE_TYPE_TEXT\<rparr>, 1, True),
        (\<lparr>From = ''Ben'', To = ''Ann'', Message = ''Message 2'', Timestamp = 2,
           Type = MESSAGE_TYPE_TEXT\<rparr>, 3, True),
        (\<lparr>From = ''Ann'', To = ''Server'', Message = ''Message 3'', Timestamp = 4,
           Type = MESSAGE_TYPE_TEXT\<rparr>, 5, True)]) = 3 \<and>
   Chat_recv
       [(\<lparr>From = ''Ann'', To = ''Server'', Message = ''Message 1'', Timestamp = 0,
           Type = MESSAGE_TYPE_TEXT\<rparr>, 1, True),
        (\<lparr>From = ''Ben'', To = ''Ann'', Message = ''Message 2'', Timestamp = 2,
           Type = MESSAGE_TYPE_TEXT\<rparr>, 3, True),
        (\<lparr>From = ''Ann'', To = ''Server'', Message = ''Message 3'', Timestamp = 4,
           Type = MESSAGE_TYPE_TEXT\<rparr>, 5, True)] ! 1
     = \<lparr>From = ''Server'', To = ''Ben'', Message = ''Echo: Message 2'', Timestamp = 3,
         Type = MESSAGE_TYPE_TEXT\<rparr> \<and>
   Message (Chat_recv
       [(\<lparr>From = ''Ann'', To = ''Server'', Message = ''Message 1'', Timestamp = 0,
           Type = MESSAGE_TYPE_TEXT\<rparr>, 1, True),
        (\<lparr>From = ''Ben'', To = ''Ann'', Message = ''Message 2'', Timestamp = 2,
           Type = MESSAGE_TYPE_TEXT\<rparr>, 3, True),
        (\<lparr>From = ''Ann'', To = ''Server'', Message = ''Message 3'', Timestamp = 4,
           Type = MESSAGE_TYPE_TEXT\<rparr>, 5, True)] ! 2) = ''Echo: Message 3''"
  using
    Chat_echo_reply[of 1 "[(\<lparr>From = ''Ann'', To = ''Server'', Message = ''Message 1'', Timestamp = 0,
           Type = MESSAGE_TYPE_TEXT\<rparr>, 1, True),
        (\<lparr>From = ''Ben'', To = ''Ann'', Message = ''Message 2'', Timestamp = 2,
           Type = MESSAGE_TYPE_TEXT\<rparr>, 3, True),
        (\<lparr>From = ''Ann'', To = ''Server'', Message = ''Message 3'', Timestamp = 4,
           Type = MESSAGE_TYPE_TEXT\<rparr>, 5, True)]"]
    Chat_echo_reply[of 2 "[(\<lparr>From = ''Ann'', To = ''Server'', Message = ''Message 1'', Timestamp = 0,
           Type = MESSAGE_TYPE_TEXT\<rparr>, 1, True),
        (\<lparr>From = ''Ben'', To = ''Ann'', Message = ''Message 2'', Timestamp = 2,
           Type = MESSAGE_TYPE_TEXT\<rparr>, 3, True),
        (\<lparr>From = ''Ann'', To = ''Server'', Message = ''Message 3'', Timestamp = 4,
           Type = MESSAGE_TYPE_TEXT\<rparr>, 5, True)]"]
  by simp

text \<open>C3 as stated fails: a message from \<open>Client\<close> to \<open>Bob\<close> is answered by \<open>Server\<close>,
  not by \<open>Bob\<close>.\<close>

theorem Chat_echo_sender_counterexample:
  "Chat_recv [(\<lparr>From = ''Client'', To = ''Bob'', Message = ''Message 1'', Timestamp = 0,
                Type = MESSAGE_TYPE_TEXT\<rparr>, 1, True)]
     = [\<lparr>From = ''Server'', To = ''Client'', Message = ''Echo: Message 1'', Timestamp = 1,
         Type = MESSAGE_TYPE_TEXT\<rparr>] \<and>
   ''Server'' \<noteq> ''Bob''"
  by simp

section \<open>Bulk ingest\<close>

lemma sint_add_of_nat:
  assumes "sint a + int n < 2 ^ 31"
  shows "sint ((a::int32) + word_of_nat n) = sint a + int n"
proof -
  have lo: "- (2 ^ 31) \<le> sint a" using sint_ge[of a] by simp
  have "a + word_of_nat n = word_of_int (sint a + int n)" by simp
  then have "sint (a + word_of_nat n) = signed_take_bit 31 (sint a + int n)"
    by (simp only: sint_sbintrunc') simp
  also have "\<dots> = sint a + int n"
    using lo assms by (intro signed_take_bit_int_eq_self) auto
  finally show ?thesis .
qed

lemma update_fresh: "k \<notin> fst ` set al \<Longrightarrow> AList.update k v al = al @ [(k, v)]"
  by (induction al) auto

lemma of_nat_ne_0: "0 < n \<Longrightarrow> n < 2 ^ 32 \<Longrightarrow> (word_of_nat n :: int32) \<noteq> 0"
  using dvd_imp_le[of "2 ^ 32" n] by (auto simp: word_of_nat_eq_0_iff)

lemma range_email_append: "range_email (us @ vs) e = (range_email us e \<or> range_email vs e)"
  by (induction us) auto

lemma range_email_update_upper:
  "range_email (AList.update k v al) e \<Longrightarrow> range_email al e \<or> Email v = e"
  by (induction al) (auto split: if_splits)

lemma range_email_update_fresh:
  "k \<notin> fst ` set al \<Longrightarrow> range_email (AList.update k v al) e = (range_email al e \<or> Email v = e)"
  by (simp add: update_fresh range_email_append)

lemma Create_failure_unchanged:
  "fst (Create r user) = Some e \<Longrightarrow>
   Create r user = (Some e, user, r) \<and> (e = ErrInvalidInput \<or> e = ErrEmailExists)"
  by (simp add: Create_def split: if_splits)

lemma Create_None:
  "fst (Create r user) = None \<Longrightarrow>
   Create r user
     = (None, user\<lparr>ID := nextID r\<rparr>,
        r\<lparr>nextID := nextID r + 1,
          users := AList.update (nextID r) (user\<lparr>ID := nextID r\<rparr>) (users r)\<rparr>)"
  by (simp add: Create_def split: if_splits)

lemma Create_item_fail:
  "fst (Create_item r item) = Some e \<Longrightarrow>
   Create_item r item = (Some e, FromCreateRequest (fst item) 0 (snd item), r)"
  unfolding Create_item_def using Create_failure_unchanged by blast

lemma Create_item_ok:
  "fst (Create_item r item) = None \<Longrightarrow>
   Create_item r item
     = (None, (FromCreateRequest (fst item) 0 (snd item))\<lparr>ID := nextID r\<rparr>,
        r\<lparr>nextID := nextID r + 1,
          users := AList.update (nextID r)
            ((FromCreateRequest (fst item) 0 (snd item))\<lparr>ID := nextID r\<rparr>) (users r)\<rparr>)"
  unfolding Create_item_def by (rule Create_None)

lemma Create_each_length: "length (Create_each r items) = length items"
  by (induction items arbitrary: r) auto

lemma Create_each_items: "map fst (Create_each r items) = items"
  by (induction items arbitrary: r) auto

lemma Create_each_append:
  "Create_each r (xs @ ys) = Create_each r xs @ Create_each (store_after r xs) ys"
  by (induction xs arbitrary: r) auto

lemma created_ids_Nil: "created_ids [] = []"
  by (simp add: created_ids_def)

lemma created_ids_Cons:
  "created_ids (out # outs)
     = (if fst (snd out) = None then ID (snd (snd out)) # created_ids outs else created_ids outs)"
  by (simp add: created_ids_def)

lemma created_ids_append: "created_ids (xs @ ys) = created_ids xs @ created_ids ys"
  by (simp add: created_ids_def)

lemma failure_messages_Nil: "failure_messages [] = []"
  by (simp add: failure_messages_def)

lemma failure_messages_Cons:
  "failure_messages (out # outs)
     = (case fst (snd out) of
          None \<Rightarrow> failure_messages outs
        | Some err \<Rightarrow> (''Email '' @ req_Email (fst (fst out)) @ '': '' @ Error err) # failure_messages outs)"
  by (simp add: failure_messages_def split: option.splits)

lemma failure_messages_append:
  "failure_messages (xs @ ys) = failure_messages xs @ failure_messages ys"
  by (simp add: failure_messages_def)

lemma outcomes_length:
  "length (created_ids outs) + length (failure_messages outs) = length outs"
  by (induction outs) (auto simp: created_ids_Nil created_ids_Cons failure_messages_Nil
      failure_messages_Cons split: option.splits)

lemma CreateUsers_loop_step:
  "CreateUsers_loop r (item # rest) fin createdCount userIDs errors =
     (case fst (Create_item r item) of
        Some err \<Rightarrow>
          CreateUsers_loop (snd (snd (Create_item r item))) rest fin createdCount userIDs
            (errors @ [''Email '' @ req_Email (fst item) @ '': '' @ Error err])
      | None \<Rightarrow>
          CreateUsers_loop (snd (snd (Create_item r item))) rest fin (createdCount + 1)
            (userIDs @ [ID (fst (snd (Create_item r item)))]) errors)"
  by (simp add: Create_item_def split: prod.splits option.splits)

lemma CreateUsers_loop_eq:
  "CreateUsers_loop r items io_EOF createdCount userIDs errors
     = (Inr \<lparr>CreatedCount = createdCount + word_of_nat (length (created_ids (Create_each r items))),
             UserIds = userIDs @ created_ids (Create_each r items),
             Errors = errors @ failure_messages (Create_each r items)\<rparr>,
        store_after r items)"
proof (induction items arbitrary: r createdCount userIDs errors)
  case Nil
  then show ?case by (simp add: created_ids_Nil failure_messages_Nil)
next
  case (Cons item items)
  show ?case
    by (cases "fst (Create_item r item)")
      (simp_all only: CreateUsers_loop_step Cons.IH Create_each.simps store_after.simps
        created_ids_Cons failure_messages_Cons fst_conv snd_conv option.case, simp_all)
qed

lemma CreateUsers_loop_error:
  "CreateUsers_loop r items (recv_error e) createdCount userIDs errors
     = (Inl e, store_after r items)"
proof (induction items arbitrary: r createdCount userIDs errors)
  case Nil
  then show ?case by simp
next
  case (Cons item items)
  show ?case
    by (cases "fst (Create_item r item)")
      (simp_all only: CreateUsers_loop_step Cons.IH store_after.simps option.case)
qed

lemma upt_shift: "map (\<lambda>i. f (Suc i)) [0..<n] = map f [1..<Suc n]"
proof -
  have "map f [1..<Suc n] = map f (map Suc [0..<n])"
    by (simp only: map_Suc_upt One_nat_def)
  also have "\<dots> = map (\<lambda>i. f (Suc i)) [0..<n]"
    by (simp add: o_def)
  finally show ?thesis by (rule sym)
qed

lemma word_succ_of_nat: "(a::int32) + 1 + word_of_nat i = a + word_of_nat (Suc i)"
  by simp

lemma consecutive_Cons:
  "(a::int32) # map (\<lambda>i. a + 1 + word_of_nat i) [0..<k] = map (\<lambda>i. a + word_of_nat i) [0..<Suc k]"
proof -
  have "map (\<lambda>i. a + 1 + word_of_nat i) [0..<k] = map (\<lambda>i. a + word_of_nat (Suc i)) [0..<k]"
    by (simp only: word_succ_of_nat)
  also have "\<dots> = map (\<lambda>i. a + word_of_nat i) [1..<Suc k]"
    by (rule upt_shift)
  finally have "a # map (\<lambda>i. a + 1 + word_of_nat i) [0..<k]
                  = (a + word_of_nat 0) # map (\<lambda>i. a + word_of_nat i) [1..<Suc k]"
    by simp
  also have "\<dots> = map (\<lambda>i. a + word_of_nat i) (0 # [1..<Suc k])"
    by (simp only: list.map)
  also have "0 # [1..<Suc k] = [0..<Suc k]"
    by (simp add: upt_conv_Cons del: upt_Suc)
  finally show ?thesis .
qed

lemma Create_item_ok_nextID:
  "fst (Create_item r item) = None \<Longrightarrow> nextID (snd (snd (Create_item r item))) = nextID r + 1"
  by (drule Create_item_ok) simp

lemma Create_item_ok_ID:
  "fst (Create_item r item) = None \<Longrightarrow> ID (fst (snd (Create_item r item))) = nextID r"
  by (drule Create_item_ok) simp

lemma Create_item_fail_store:
  "fst (Create_item r item) = Some e \<Longrightarrow> snd (snd (Create_item r item)) = r"
  by (drule Create_item_fail) simp

lemma created_ids_consecutive:
  "created_ids (Create_each r items)
     = map (\<lambda>i. nextID r + word_of_nat i) [0..<length (created_ids (Create_each r items))]"
proof (induction items arbitrary: r)
  case Nil
  show ?case by (simp add: created_ids_Nil)
next
  case (Cons item items)
  show ?case
  proof (cases "fst (Create_item r item)")
    case (Some e)
    have eq: "created_ids (Create_each r (item # items)) = created_ids (Create_each r items)"
      using Some by (simp add: created_ids_Cons Create_item_fail_store[OF Some])
    show ?thesis by (simp only: eq) (rule Cons.IH)
  next
    case None
    let ?r' = "snd (snd (Create_item r item))"
    let ?k = "length (created_ids (Create_each ?r' items))"
    have eq: "created_ids (Create_each r (item # items)) = nextID r # created_ids (Create_each ?r' items)"
      using None by (simp add: created_ids_Cons Create_item_ok_ID[OF None])
    have len: "length (created_ids (Create_each r (item # items))) = Suc ?k"
      using eq by simp
    have "created_ids (Create_each ?r' items) = map (\<lambda>i. nextID ?r' + word_of_nat i) [0..<?k]"
      by (rule Cons.IH)
    also have "\<dots> = map (\<lambda>i. nextID r + 1 + word_of_nat i) [0..<?k]"
      by (simp only: Create_item_ok_nextID[OF None])
    finally have "nextID r # created_ids (Create_each ?r' items)
                    = nextID r # map (\<lambda>i. nextID r + 1 + word_of_nat i) [0..<?k]"
      by (rule arg_cong)
    also have "\<dots> = map (\<lambda>i. nextID r + word_of_nat i) [0..<Suc ?k]"
      by (rule consecutive_Cons)
    finally have fin: "created_ids (Create_each r (item # items))
                    = map (\<lambda>i. nextID r + word_of_nat i) [0..<Suc ?k]"
      by (simp only: eq)
    show ?thesis by (subst len) (rule fin)
  qed
qed

lemma store_after_nextID:
  "nextID (store_after r items)
     = nextID r + word_of_nat (length (created_ids (Create_each r items)))"
proof (induction items arbitrary: r)
  case Nil
  show ?case by (simp add: created_ids_Nil)
next
  case (Cons item items)
  show ?case
  proof (cases "fst (Create_item r item)")
    case (Some e)
    then show ?thesis using Cons.IH[of r]
      by (simp add: created_ids_Cons Create_item_fail_store[OF Some])
  next
    case None
    let ?r' = "snd (snd (Create_item r item))"
    have "nextID (store_after r (item # items))
            = nextID r + 1 + word_of_nat (length (created_ids (Create_each ?r' items)))"
      using Cons.IH[of ?r'] by (simp add: Create_item_ok_nextID[OF None])
    also have "\<dots> = nextID r + word_of_nat (Suc (length (created_ids (Create_each ?r' items))))"
      by (rule word_succ_of_nat)
    finally show ?thesis using None by (simp add: created_ids_Cons)
  qed
qed

lemma fresh_idsD:
  assumes "fresh_ids r n" and "i < n"
  shows "nextID r + word_of_nat i \<notin> fst ` set (users r)"
proof -
  have "i \<in> set [0..<n]" using assms(2) by simp
  then show ?thesis using assms(1) unfolding fresh_ids_def list_all_iff by blast
qed

lemma fresh_idsI:
  assumes "n \<le> 2 ^ 32" and "\<And>i. i < n \<Longrightarrow> nextID r + word_of_nat i \<notin> fst ` set (users r)"
  shows "fresh_ids r n"
  using assms by (simp add: fresh_ids_def list_all_iff)

lemma fresh_ids_head: "fresh_ids r (Suc n) \<Longrightarrow> nextID r \<notin> fst ` set (users r)"
  using fresh_idsD[of r "Suc n" 0] by simp

lemma not_mem_ne: "y \<notin> S \<Longrightarrow> x \<in> S \<Longrightarrow> x \<noteq> y"
  by auto

lemma emails_mem: "it \<in> set items \<Longrightarrow> req_Email (fst it) \<in> (\<lambda>item. req_Email (fst item)) ` set items"
  by (rule image_eqI[where x = it]) simp_all

lemma fresh_ids_step:
  assumes f: "fresh_ids r (Suc n)" and ok: "fst (Create_item r item) = None"
  shows "fresh_ids (snd (snd (Create_item r item))) n"
proof -
  let ?r' = "snd (snd (Create_item r item))"
  have keys: "fst ` set (users ?r') = insert (nextID r) (fst ` set (users r))"
    using Create_item_ok[OF ok] by (simp add: dom_update)
  have nx: "nextID ?r' = nextID r + 1" by (rule Create_item_ok_nextID[OF ok])
  have n: "Suc n \<le> 2 ^ 32" using f by (simp add: fresh_ids_def)
  {
    fix i assume i: "i < n"
    have a: "nextID r + word_of_nat (Suc i) \<notin> fst ` set (users r)"
      using i by (intro fresh_idsD[OF f]) simp
    have "(word_of_nat (Suc i) :: int32) \<noteq> 0"
      using i n by (intro of_nat_ne_0) auto
    then have b: "nextID r + word_of_nat (Suc i) \<noteq> nextID r" by simp
    have c: "nextID ?r' + word_of_nat i = nextID r + word_of_nat (Suc i)"
      by (simp only: nx word_succ_of_nat)
    have "nextID ?r' + word_of_nat i \<notin> fst ` set (users ?r')"
      unfolding c keys using a b by blast
  }
  then show ?thesis using n by (intro fresh_idsI) simp_all
qed

lemma Create_item_success:
  assumes "req_Name (fst item) \<noteq> []" "req_Email (fst item) \<noteq> []"
    "\<not> range_email (users r) (req_Email (fst item))"
  shows "fst (Create_item r item) = None"
  using assms by (simp add: Create_item_def Create_def FromCreateRequest_def)

lemma Create_item_duplicate:
  assumes "req_Name (fst item) \<noteq> []" "req_Email (fst item) \<noteq> []"
    "range_email (users r) (req_Email (fst item))"
  shows "Create_item r item = (Some ErrEmailExists, FromCreateRequest (fst item) 0 (snd item), r)"
  using assms by (simp add: Create_item_def Create_def FromCreateRequest_def)

lemma Create_item_emails_upper:
  assumes ok: "fst (Create_item r item) = None"
    and e: "range_email (users (snd (snd (Create_item r item)))) e"
  shows "range_email (users r) e \<or> e = req_Email (fst item)"
  using e range_email_update_upper[of "nextID r"
      "(FromCreateRequest (fst item) 0 (snd item))\<lparr>ID := nextID r\<rparr>" "users r" e]
  by (auto simp: Create_item_ok[OF ok] FromCreateRequest_def)

lemma Create_item_emails_fresh:
  assumes ok: "fst (Create_item r item) = None" and k: "nextID r \<notin> fst ` set (users r)"
  shows "range_email (users (snd (snd (Create_item r item)))) e
           = (range_email (users r) e \<or> e = req_Email (fst item))"
  using range_email_update_fresh[OF k, of
      "(FromCreateRequest (fst item) 0 (snd item))\<lparr>ID := nextID r\<rparr>" e]
  by (auto simp: Create_item_ok[OF ok] FromCreateRequest_def)

text \<open>A batch of valid items whose emails are pairwise different and not in the store.\<close>

lemma all_new_succeed:
  assumes "\<forall>item\<in>set items. req_Name (fst item) \<noteq> [] \<and> req_Email (fst item) \<noteq> []"
    and "distinct (map (\<lambda>item. req_Email (fst item)) items)"
    and "\<forall>item\<in>set items. \<not> range_email (users r) (req_Email (fst item))"
  shows "failure_messages (Create_each r items) = [] \<and>
         length (created_ids (Create_each r items)) = length items \<and>
         (\<forall>e. range_email (users (store_after r items)) e \<longrightarrow>
              range_email (users r) e \<or> e \<in> (\<lambda>item. req_Email (fst item)) ` set items)"
  using assms
proof (induction items arbitrary: r)
  case Nil
  then show ?case by (simp add: failure_messages_Nil created_ids_Nil)
next
  case (Cons item items)
  let ?r' = "snd (snd (Create_item r item))"
  have ok: "fst (Create_item r item) = None"
    using Cons.prems by (intro Create_item_success) auto
  have new': "\<forall>it\<in>set items. \<not> range_email (users ?r') (req_Email (fst it))"
  proof
    fix it assume it: "it \<in> set items"
    show "\<not> range_email (users ?r') (req_Email (fst it))"
    proof
      assume "range_email (users ?r') (req_Email (fst it))"
      then have "range_email (users r) (req_Email (fst it)) \<or> req_Email (fst it) = req_Email (fst item)"
        by (rule Create_item_emails_upper[OF ok])
      moreover have d: "req_Email (fst item) \<notin> (\<lambda>item. req_Email (fst item)) ` set items"
        using Cons.prems(2) by simp
      have "req_Email (fst it) \<noteq> req_Email (fst item)"
        by (rule not_mem_ne[OF d emails_mem[OF it]])
      moreover have "\<not> range_email (users r) (req_Email (fst it))"
        using Cons.prems(3) it by simp
      ultimately show False by simp
    qed
  qed
  have ih: "failure_messages (Create_each ?r' items) = [] \<and>
         length (created_ids (Create_each ?r' items)) = length items \<and>
         (\<forall>e. range_email (users (store_after ?r' items)) e \<longrightarrow>
              range_email (users ?r') e \<or> e \<in> (\<lambda>item. req_Email (fst item)) ` set items)"
    using Cons.prems new' by (intro Cons.IH) auto
  have up: "\<forall>e. range_email (users (store_after r (item # items))) e \<longrightarrow>
              range_email (users r) e \<or> e \<in> (\<lambda>item. req_Email (fst item)) ` set (item # items)"
  proof (intro allI impI)
    fix e assume "range_email (users (store_after r (item # items))) e"
    then have "range_email (users ?r') e \<or> e \<in> (\<lambda>item. req_Email (fst item)) ` set items"
      using ih by simp
    then show "range_email (users r) e \<or> e \<in> (\<lambda>item. req_Email (fst item)) ` set (item # items)"
      using Create_item_emails_upper[OF ok, of e] by auto
  qed
  show ?case using ok ih up
    by (simp add: failure_messages_Cons created_ids_Cons)
qed

lemma store_grows:
  assumes "\<forall>item\<in>set items. req_Name (fst item) \<noteq> [] \<and> req_Email (fst item) \<noteq> []"
    and "distinct (map (\<lambda>item. req_Email (fst item)) items)"
    and "\<forall>item\<in>set items. \<not> range_email (users r) (req_Email (fst item))"
    and "fresh_ids r (length items)"
    and "range_email (users r) e \<or> e \<in> (\<lambda>item. req_Email (fst item)) ` set items"
  shows "range_email (users (store_after r items)) e"
  using assms
proof (induction items arbitrary: r)
  case Nil
  then show ?case by simp
next
  case (Cons item items)
  let ?r' = "snd (snd (Create_item r item))"
  have ok: "fst (Create_item r item) = None"
    using Cons.prems by (intro Create_item_success) auto
  have fr: "fresh_ids r (Suc (length items))" using Cons.prems(4) by simp
  have em: "\<And>e. range_email (users ?r') e = (range_email (users r) e \<or> e = req_Email (fst item))"
    by (rule Create_item_emails_fresh[OF ok fresh_ids_head[OF fr]])
  have new': "\<forall>it\<in>set items. \<not> range_email (users ?r') (req_Email (fst it))"
  proof
    fix it assume it: "it \<in> set items"
    have d: "req_Email (fst item) \<notin> (\<lambda>item. req_Email (fst item)) ` set items"
      using Cons.prems(2) by simp
    have ne: "req_Email (fst it) \<noteq> req_Email (fst item)"
      by (rule not_mem_ne[OF d emails_mem[OF it]])
    have "\<not> range_email (users r) (req_Email (fst it))"
      using Cons.prems(3) it by simp
    then show "\<not> range_email (users ?r') (req_Email (fst it))"
      using ne by (simp add: em)
  qed
  have here: "range_email (users ?r') e \<or> e \<in> (\<lambda>item. req_Email (fst item)) ` set items"
    using Cons.prems(5) by (auto simp: em)
  have "range_email (users (store_after ?r' items)) e"
    using Cons.prems(1,2) new' fresh_ids_step[OF fr ok] here by (intro Cons.IH) auto
  then show ?case by simp
qed

lemma sint_of_nat_small: "n < 2 ^ 31 \<Longrightarrow> sint (word_of_nat n :: int32) = int n"
  using sint_add_of_nat[of 0 n] by simp

lemma CreateUsers_eq:
  "CreateUsers r items io_EOF
     = (Inr \<lparr>CreatedCount = word_of_nat (length (created_ids (Create_each r items))),
             UserIds = created_ids (Create_each r items),
             Errors = failure_messages (Create_each r items)\<rparr>,
        store_after r items)"
  by (simp add: CreateUsers_def CreateUsers_loop_eq)

lemma one_duplicate_outcomes:
  assumes valid: "\<forall>item\<in>set (xs @ d # ys). req_Name (fst item) \<noteq> [] \<and> req_Email (fst item) \<noteq> []"
    and dist: "distinct (map (\<lambda>item. req_Email (fst item)) (xs @ ys))"
    and new: "\<forall>item\<in>set (xs @ ys). \<not> EmailExists r (req_Email (fst item))"
    and dup: "EmailExists r (req_Email (fst d)) \<or>
              req_Email (fst d) \<in> (\<lambda>item. req_Email (fst item)) ` set xs"
    and fresh: "fresh_ids r (length xs)"
  shows "length (created_ids (Create_each r (xs @ d # ys))) = length xs + length ys"
    and "failure_messages (Create_each r (xs @ d # ys))
           = [''Email '' @ req_Email (fst d) @ '': email already exists'']"
proof -
  let ?r1 = "store_after r xs"
  have vx: "\<forall>item\<in>set xs. req_Name (fst item) \<noteq> [] \<and> req_Email (fst item) \<noteq> []"
    and vd: "req_Name (fst d) \<noteq> []" "req_Email (fst d) \<noteq> []"
    and vy: "\<forall>item\<in>set ys. req_Name (fst item) \<noteq> [] \<and> req_Email (fst item) \<noteq> []"
    using valid by simp_all
  have dx: "distinct (map (\<lambda>item. req_Email (fst item)) xs)"
    and dy: "distinct (map (\<lambda>item. req_Email (fst item)) ys)"
    and dxy: "(\<lambda>item. req_Email (fst item)) ` set xs \<inter> (\<lambda>item. req_Email (fst item)) ` set ys = {}"
    using dist by simp_all
  have nx: "\<forall>item\<in>set xs. \<not> range_email (users r) (req_Email (fst item))"
    and ny: "\<forall>item\<in>set ys. \<not> range_email (users r) (req_Email (fst item))"
    using new by (simp_all add: EmailExists_def)
  have X: "failure_messages (Create_each r xs) = []"
      "length (created_ids (Create_each r xs)) = length xs"
      "\<And>e. range_email (users ?r1) e \<Longrightarrow>
          range_email (users r) e \<or> e \<in> (\<lambda>item. req_Email (fst item)) ` set xs"
    using all_new_succeed[OF vx dx nx] by blast+
  have "range_email (users r) (req_Email (fst d)) \<or>
        req_Email (fst d) \<in> (\<lambda>item. req_Email (fst item)) ` set xs"
    using dup by (simp add: EmailExists_def)
  then have "range_email (users ?r1) (req_Email (fst d))"
    by (rule store_grows[OF vx dx nx fresh])
  then have D: "Create_item ?r1 d = (Some ErrEmailExists, FromCreateRequest (fst d) 0 (snd d), ?r1)"
    by (rule Create_item_duplicate[OF vd])
  have ny1: "\<forall>item\<in>set ys. \<not> range_email (users ?r1) (req_Email (fst item))"
  proof
    fix it assume it: "it \<in> set ys"
    have a: "\<not> range_email (users r) (req_Email (fst it))" using ny it by simp
    have "req_Email (fst it) \<in> (\<lambda>item. req_Email (fst item)) ` set ys" by (rule emails_mem[OF it])
    then have b: "req_Email (fst it) \<notin> (\<lambda>item. req_Email (fst item)) ` set xs"
      using dxy by blast
    show "\<not> range_email (users ?r1) (req_Email (fst it))"
      using X(3)[of "req_Email (fst it)"] a b by blast
  qed
  have Y: "failure_messages (Create_each ?r1 ys) = []"
      "length (created_ids (Create_each ?r1 ys)) = length ys"
    using all_new_succeed[OF vy dy ny1] by blast+
  have split: "Create_each r (xs @ d # ys)
      = Create_each r xs @ (d, Some ErrEmailExists, FromCreateRequest (fst d) 0 (snd d))
          # Create_each ?r1 ys"
    by (simp add: Create_each_append D)
  show "length (created_ids (Create_each r (xs @ d # ys))) = length xs + length ys"
    by (simp add: split created_ids_append created_ids_Cons X(2) Y(2))
  show "failure_messages (Create_each r (xs @ d # ys))
           = [''Email '' @ req_Email (fst d) @ '': email already exists'']"
    by (simp add: split failure_messages_append failure_messages_Cons X(1) Y(1))
qed

text \<open>
  C9, as amended. A batch that ends in \<open>io.EOF\<close> is never aborted: \<open>CreateUsers\<close> returns the
  aggregate response, in which every item of the batch, taken through the \<open>Create\<close> path
  in the order of arrival, has either its ID or its failure message, in that order, and
  leaves the store the last item left. For a batch \<open>xs @ d # ys\<close> of size \<open>N\<close> whose
  items are all valid, where the emails of \<open>xs\<close> and \<open>ys\<close> are pairwise different and
  new to the store and the email of \<open>d\<close> is that of a live user or of an item of
  \<open>xs\<close>, run on a store where the IDs the items of \<open>xs\<close> will be given are fresh: the
  created count is \<open>N - 1\<close> (as an \<open>int32\<close>; as a number when \<open>N - 1\<close> is below
  \<open>2^31\<close>), the IDs are the \<open>N - 1\<close> next values of the counter in the order of
  processing, and the only failure message is the one of \<open>d\<close>, with its email.
\<close>

theorem CreateUsers_batch:
  "CreateUsers r items io_EOF
     = (Inr \<lparr>CreatedCount = word_of_nat (length (created_ids (Create_each r items))),
             UserIds = created_ids (Create_each r items),
             Errors = failure_messages (Create_each r items)\<rparr>,
        store_after r items) \<and>
   map fst (Create_each r items) = items \<and>
   length (created_ids (Create_each r items)) + length (failure_messages (Create_each r items))
     = length items \<and>
   ((\<forall>item\<in>set (xs @ d # ys). req_Name (fst item) \<noteq> [] \<and> req_Email (fst item) \<noteq> []) \<and>
    distinct (map (\<lambda>item. req_Email (fst item)) (xs @ ys)) \<and>
    (\<forall>item\<in>set (xs @ ys). \<not> EmailExists r (req_Email (fst item))) \<and>
    (EmailExists r (req_Email (fst d)) \<or>
       req_Email (fst d) \<in> (\<lambda>item. req_Email (fst item)) ` set xs) \<and>
    fresh_ids r (length xs)
    \<longrightarrow> (\<exists>resp. fst (CreateUsers r (xs @ d # ys) io_EOF) = Inr resp \<and>
           CreatedCount resp = word_of_nat (length xs + length ys) \<and>
           (length xs + length ys < 2 ^ 31 \<longrightarrow>
              sint (CreatedCount resp) = int (length (xs @ d # ys)) - 1) \<and>
           UserIds resp = map (\<lambda>i. nextID r + word_of_nat i) [0..<length xs + length ys] \<and>
           Errors resp = [''Email '' @ req_Email (fst d) @ '': email already exists'']))"
proof (intro conjI impI)
  show "CreateUsers r items io_EOF
     = (Inr \<lparr>CreatedCount = word_of_nat (length (created_ids (Create_each r items))),
             UserIds = created_ids (Create_each r items),
             Errors = failure_messages (Create_each r items)\<rparr>,
        store_after r items)"
    by (rule CreateUsers_eq)
  show "map fst (Create_each r items) = items" by (rule Create_each_items)
  show "length (created_ids (Create_each r items)) + length (failure_messages (Create_each r items))
     = length items"
    by (simp add: outcomes_length Create_each_length)
next
  assume h: "(\<forall>item\<in>set (xs @ d # ys). req_Name (fst item) \<noteq> [] \<and> req_Email (fst item) \<noteq> []) \<and>
    distinct (map (\<lambda>item. req_Email (fst item)) (xs @ ys)) \<and>
    (\<forall>item\<in>set (xs @ ys). \<not> EmailExists r (req_Email (fst item))) \<and>
    (EmailExists r (req_Email (fst d)) \<or>
       req_Email (fst d) \<in> (\<lambda>item. req_Email (fst item)) ` set xs) \<and>
    fresh_ids r (length xs)"
  let ?items = "xs @ d # ys"
  have len: "length (created_ids (Create_each r ?items)) = length xs + length ys"
    and fm: "failure_messages (Create_each r ?items)
           = [''Email '' @ req_Email (fst d) @ '': email already exists'']"
    using one_duplicate_outcomes[of xs d ys r] h by blast+
  have ids: "created_ids (Create_each r ?items)
               = map (\<lambda>i. nextID r + word_of_nat i) [0..<length xs + length ys]"
    using created_ids_consecutive[of r ?items] by (simp only: len)
  let ?resp = "\<lparr>CreatedCount = word_of_nat (length xs + length ys),
             UserIds = map (\<lambda>i. nextID r + word_of_nat i) [0..<length xs + length ys],
             Errors = [''Email '' @ req_Email (fst d) @ '': email already exists'']\<rparr>"
  have "fst (CreateUsers r ?items io_EOF) = Inr ?resp"
    by (simp add: CreateUsers_eq ids fm)
  moreover have "length xs + length ys < 2 ^ 31 \<longrightarrow>
      sint (CreatedCount ?resp) = int (length (xs @ d # ys)) - 1"
  proof
    assume "length xs + length ys < 2 ^ 31"
    then have "sint (word_of_nat (length xs + length ys) :: int32) = int (length xs + length ys)"
      by (rule sint_of_nat_small)
    then show "sint (CreatedCount ?resp) = int (length (xs @ d # ys)) - 1" by simp
  qed
  ultimately show "\<exists>resp. fst (CreateUsers r (xs @ d # ys) io_EOF) = Inr resp \<and>
           CreatedCount resp = word_of_nat (length xs + length ys) \<and>
           (length xs + length ys < 2 ^ 31 \<longrightarrow>
              sint (CreatedCount resp) = int (length (xs @ d # ys)) - 1) \<and>
           UserIds resp = map (\<lambda>i. nextID r + word_of_nat i) [0..<length xs + length ys] \<and>
           Errors resp = [''Email '' @ req_Email (fst d) @ '': email already exists'']"
    by (intro exI[of _ ?resp]) simp
qed

theorem CreateUsers_batch_witness:
  "fst (CreateUsers (NewInMemoryUserRepository 0)
         [(\<lparr>req_Name = ''Alice'', req_Email = ''alice@example.com'', req_Role = []\<rparr>, 1),
          (\<lparr>req_Name = ''Bob'', req_Email = ''bob@example.com'', req_Role = ''user''\<rparr>, 2),
          (\<lparr>req_Name = ''Charlie'', req_Email = ''charlie@example.com'', req_Role = ''admin''\<rparr>, 3)]
         io_EOF)
     = Inr \<lparr>CreatedCount = 2, UserIds = [4, 5],
            Errors = [''Email bob@example.com: email already exists'']\<rparr>"
  using CreateUsers_batch[where r = "NewInMemoryUserRepository 0"
      and xs = "[(\<lparr>req_Name = ''Alice'', req_Email = ''alice@example.com'', req_Role = []\<rparr>, 1)]"
      and d = "(\<lparr>req_Name = ''Bob'', req_Email = ''bob@example.com'', req_Role = ''user''\<rparr>, 2)"
      and ys = "[(\<lparr>req_Name = ''Charlie'', req_Email = ''charlie@example.com'', req_Role = ''admin''\<rparr>, 3)]"
      and items = "[]"]
  by (simp add: NewInMemoryUserRepository_def EmailExists_def fresh_ids_def
      CreateUsers_def Create_def FromCreateRequest_def)

lemma sint_consecutive:
  assumes "sint (a::int32) + int k \<le> 2 ^ 31"
  shows "map sint (map (\<lambda>i. a + word_of_nat i) [0..<k]) = map (\<lambda>i. sint a + int i) [0..<k]"
proof -
  have "\<And>i. i \<in> set [0..<k] \<Longrightarrow> sint (a + word_of_nat i) = sint a + int i"
  proof -
    fix i assume "i \<in> set [0..<k]"
    then have "sint a + int i < 2 ^ 31" using assms by simp
    then show "sint (a + word_of_nat i) = sint a + int i" by (rule sint_add_of_nat)
  qed
  then show ?thesis by (simp only: map_map o_def cong: map_cong)
qed

text \<open>
  C10, as amended. A \<open>Create\<close> that fails, with \<open>ErrInvalidInput\<close> or \<open>ErrEmailExists\<close> (it has
  no other error), returns the store it was given, contents and counter. So the IDs of
  the successful creations of a batch are the next values of the counter, one after the
  other, however many items fail in between: the \<open>i\<close>-th success gets the counter plus
  \<open>i\<close> in \<open>int32\<close> arithmetic, which are consecutive integers as long as the counter
  does not pass \<open>2^31 - 1\<close> inside the batch; the count is their number and the counter
  ends that many further.
\<close>

theorem Create_failure_keeps_store:
  "(fst (Create r user) = Some e \<longrightarrow>
      Create r user = (Some e, user, r) \<and> (e = ErrInvalidInput \<or> e = ErrEmailExists)) \<and>
   (\<exists>resp. CreateUsers r items io_EOF = (Inr resp, store_after r items) \<and>
      UserIds resp = map (\<lambda>i. nextID r + word_of_nat i) [0..<length (UserIds resp)] \<and>
      CreatedCount resp = word_of_nat (length (UserIds resp)) \<and>
      length (UserIds resp) + length (Errors resp) = length items \<and>
      nextID (store_after r items) = nextID r + word_of_nat (length (UserIds resp)) \<and>
      (sint (nextID r) + int (length (UserIds resp)) \<le> 2 ^ 31 \<longrightarrow>
         map sint (UserIds resp)
           = map (\<lambda>i. sint (nextID r) + int i) [0..<length (UserIds resp)]))"
proof (intro conjI impI)
  assume "fst (Create r user) = Some e"
  then show "Create r user = (Some e, user, r)" "e = ErrInvalidInput \<or> e = ErrEmailExists"
    using Create_failure_unchanged by blast+
next
  let ?ids = "created_ids (Create_each r items)"
  let ?resp = "\<lparr>CreatedCount = word_of_nat (length ?ids), UserIds = ?ids,
                 Errors = failure_messages (Create_each r items)\<rparr>"
  have c: "?ids = map (\<lambda>i. nextID r + word_of_nat i) [0..<length ?ids]"
    by (rule created_ids_consecutive)
  have s: "sint (nextID r) + int (length ?ids) \<le> 2 ^ 31 \<longrightarrow>
         map sint ?ids = map (\<lambda>i. sint (nextID r) + int i) [0..<length ?ids]"
  proof
    assume "sint (nextID r) + int (length ?ids) \<le> 2 ^ 31"
    then have "map sint (map (\<lambda>i. nextID r + word_of_nat i) [0..<length ?ids])
                 = map (\<lambda>i. sint (nextID r) + int i) [0..<length ?ids]"
      by (rule sint_consecutive)
    then show "map sint ?ids = map (\<lambda>i. sint (nextID r) + int i) [0..<length ?ids]"
      by (subst c)
  qed
  have l: "length ?ids + length (failure_messages (Create_each r items)) = length items"
    by (simp add: outcomes_length Create_each_length)
  have n: "nextID (store_after r items) = nextID r + word_of_nat (length ?ids)"
    by (rule store_after_nextID)
  have "CreateUsers r items io_EOF = (Inr ?resp, store_after r items) \<and>
      UserIds ?resp = map (\<lambda>i. nextID r + word_of_nat i) [0..<length (UserIds ?resp)] \<and>
      CreatedCount ?resp = word_of_nat (length (UserIds ?resp)) \<and>
      length (UserIds ?resp) + length (Errors ?resp) = length items \<and>
      nextID (store_after r items) = nextID r + word_of_nat (length (UserIds ?resp)) \<and>
      (sint (nextID r) + int (length (UserIds ?resp)) \<le> 2 ^ 31 \<longrightarrow>
         map sint (UserIds ?resp)
           = map (\<lambda>i. sint (nextID r) + int i) [0..<length (UserIds ?resp)])"
    unfolding BulkCreateResponse.simps
    using CreateUsers_eq[of r items] c s l n by (intro conjI) (assumption | rule refl)+
  then show "\<exists>resp. CreateUsers r items io_EOF = (Inr resp, store_after r items) \<and>
      UserIds resp = map (\<lambda>i. nextID r + word_of_nat i) [0..<length (UserIds resp)] \<and>
      CreatedCount resp = word_of_nat (length (UserIds resp)) \<and>
      length (UserIds resp) + length (Errors resp) = length items \<and>
      nextID (store_after r items) = nextID r + word_of_nat (length (UserIds resp)) \<and>
      (sint (nextID r) + int (length (UserIds resp)) \<le> 2 ^ 31 \<longrightarrow>
         map sint (UserIds resp)
           = map (\<lambda>i. sint (nextID r) + int i) [0..<length (UserIds resp)])"
    by (rule exI)
qed

theorem Create_failure_keeps_store_witness:
  "Create (NewInMemoryUserRepository 0)
       \<lparr>ID = 0, Name = ''Bob'', Email = ''bob@example.com'', Role = ''user'', CreatedAt = 2, UpdatedAt = 2\<rparr>
     = (Some ErrEmailExists,
        \<lparr>ID = 0, Name = ''Bob'', Email = ''bob@example.com'', Role = ''user'', CreatedAt = 2, UpdatedAt = 2\<rparr>,
        NewInMemoryUserRepository 0) \<and>
   fst (CreateUsers (NewInMemoryUserRepository 0)
         [(\<lparr>req_Name = [], req_Email = ''nobody@example.com'', req_Role = []\<rparr>, 1),
          (\<lparr>req_Name = ''Alice'', req_Email = ''alice@example.com'', req_Role = []\<rparr>, 1),
          (\<lparr>req_Name = ''Bob'', req_Email = ''bob@example.com'', req_Role = ''user''\<rparr>, 2),
          (\<lparr>req_Name = ''Charlie'', req_Email = ''charlie@example.com'', req_Role = ''admin''\<rparr>, 3)]
         io_EOF)
     = Inr \<lparr>CreatedCount = 2, UserIds = [4, 5],
            Errors = [''Email nobody@example.com: invalid input'',
                      ''Email bob@example.com: email already exists'']\<rparr> \<and>
   map sint [4, 5 :: int32] = [4, 5]"
  using Create_failure_keeps_store[where r = "NewInMemoryUserRepository 0"
      and user = "\<lparr>ID = 0, Name = ''Bob'', Email = ''bob@example.com'', Role = ''user'', CreatedAt = 2, UpdatedAt = 2\<rparr>"
      and e = ErrEmailExists
      and items = "[(\<lparr>req_Name = [], req_Email = ''nobody@example.com'', req_Role = []\<rparr>, 1),
          (\<lparr>req_Name = ''Alice'', req_Email = ''alice@example.com'', req_Role = []\<rparr>, 1),
          (\<lparr>req_Name = ''Bob'', req_Email = ''bob@example.com'', req_Role = ''user''\<rparr>, 2),
          (\<lparr>req_Name = ''Charlie'', req_Email = ''charlie@example.com'', req_Role = ''admin''\<rparr>, 3)]"]
  by (simp add: NewInMemoryUserRepository_def CreateUsers_def Create_def FromCreateRequest_def)

section \<open>The ID counter\<close>

lemma bits_value_bits: "bits_value (bits n) = n"
proof (induction n rule: bits.induct)
  case (1 n)
  show ?case
  proof (cases "n = 0")
    case True
    then show ?thesis by (simp add: bits.simps)
  next
    case False
    then have "bits_value (bits n) = (if even n then 0 else 1) + 2 * bits_value (bits (n div 2))"
      by (subst bits.simps) simp
    also have "\<dots> = (if even n then 0 else 1) + 2 * (n div 2)"
      using "1.IH"[OF False] by simp
    also have "\<dots> = n" by (cases "even n") auto
    finally show ?thesis .
  qed
qed

lemma bits_inj: "bits i = bits j \<Longrightarrow> i = j"
  by (metis bits_value_bits)

lemma wrap_email_inj: "wrap_email i = wrap_email j \<Longrightarrow> i = j"
  by (simp add: wrap_email_def bits_inj)

lemma wrap_email_distinct: "distinct (map wrap_email [0..<n])"
  by (simp add: distinct_map inj_on_def wrap_email_inj)

lemma assigned_ids_Create_ok:
  "fst (Create r user) = None \<Longrightarrow>
   assigned_ids r (OpCreate user # ops)
     = nextID r # assigned_ids (snd (snd (Create r user))) ops"
  by (drule Create_None) simp

lemma assigned_ids_Create_fail:
  "fst (Create r user) = Some e \<Longrightarrow>
   assigned_ids r (OpCreate user # ops) = assigned_ids r ops"
  by (drule Create_failure_unchanged) simp

lemma Delete_nextID: "nextID (snd (Delete r uid)) = nextID r"
  by (simp add: Delete_def)

lemma Create_ok_nextID: "fst (Create r user) = None \<Longrightarrow> nextID (snd (snd (Create r user))) = nextID r + 1"
  by (drule Create_None) simp

lemma assigned_ids_consecutive:
  "assigned_ids r ops = map (\<lambda>i. nextID r + word_of_nat i) [0..<length (assigned_ids r ops)]"
proof (induction r ops rule: assigned_ids.induct)
  case (1 r)
  show ?case by simp
next
  case (2 r user ops)
  show ?case
  proof (cases "fst (Create r user)")
    case (Some e)
    have eq: "assigned_ids r (OpCreate user # ops) = assigned_ids r ops"
      by (rule assigned_ids_Create_fail[OF Some])
    have st: "snd (snd (Create r user)) = r"
      using Create_failure_unchanged[OF Some] by simp
    have "assigned_ids r ops = map (\<lambda>i. nextID r + word_of_nat i) [0..<length (assigned_ids r ops)]"
      using "2.IH"(2)[OF Some] by (simp only: st)
    then show ?thesis by (simp only: eq)
  next
    case None
    let ?r' = "snd (snd (Create r user))"
    let ?k = "length (assigned_ids ?r' ops)"
    have eq: "assigned_ids r (OpCreate user # ops) = nextID r # assigned_ids ?r' ops"
      by (rule assigned_ids_Create_ok[OF None])
    have len: "length (assigned_ids r (OpCreate user # ops)) = Suc ?k"
      by (simp only: eq list.size)
    have "assigned_ids ?r' ops = map (\<lambda>i. nextID ?r' + word_of_nat i) [0..<?k]"
      by (rule "2.IH"(1)[OF None])
    also have "\<dots> = map (\<lambda>i. nextID r + 1 + word_of_nat i) [0..<?k]"
      by (simp only: Create_ok_nextID[OF None])
    finally have "nextID r # assigned_ids ?r' ops
                    = nextID r # map (\<lambda>i. nextID r + 1 + word_of_nat i) [0..<?k]"
      by (rule arg_cong)
    also have "\<dots> = map (\<lambda>i. nextID r + word_of_nat i) [0..<Suc ?k]"
      by (rule consecutive_Cons)
    finally have fin: "assigned_ids r (OpCreate user # ops)
                    = map (\<lambda>i. nextID r + word_of_nat i) [0..<Suc ?k]"
      by (simp only: eq)
    show ?thesis by (subst len) (rule fin)
  qed
next
  case (3 r uid ops)
  have "assigned_ids (snd (Delete r uid)) ops
          = map (\<lambda>i. nextID r + word_of_nat i) [0..<length (assigned_ids (snd (Delete r uid)) ops)]"
    using "3.IH" by (simp only: Delete_nextID)
  then show ?case by (simp only: assigned_ids.simps)
qed

lemma counter_not_seed:
  assumes "i < 4294967292"
  shows "(4 + word_of_nat i :: int32) \<noteq> 1" "(4 + word_of_nat i :: int32) \<noteq> 2"
    "(4 + word_of_nat i :: int32) \<noteq> 3"
proof -
  have e: "(4 + word_of_nat i :: int32) = word_of_nat (4 + i)" by simp
  have u: "unat (word_of_nat (4 + i) :: int32) = 4 + i"
    using assms by (simp only: unat_of_nat) (simp add: take_bit_nat_eq_self)
  show "(4 + word_of_nat i :: int32) \<noteq> 1"
  proof
    assume "(4 + word_of_nat i :: int32) = 1"
    then have "unat (word_of_nat (4 + i) :: int32) = unat (1 :: int32)" by (simp only: e)
    then show False by (simp only: u) simp
  qed
  show "(4 + word_of_nat i :: int32) \<noteq> 2"
  proof
    assume "(4 + word_of_nat i :: int32) = 2"
    then have "unat (word_of_nat (4 + i) :: int32) = unat (2 :: int32)" by (simp only: e)
    then show False by (simp only: u) simp
  qed
  show "(4 + word_of_nat i :: int32) \<noteq> 3"
  proof
    assume "(4 + word_of_nat i :: int32) = 3"
    then have "unat (word_of_nat (4 + i) :: int32) = unat (3 :: int32)" by (simp only: e)
    then show False by (simp only: u) simp
  qed
qed

text \<open>On the seeded store the values of the counter are fresh until it has gone around to
  the seeded IDs.\<close>

lemma seeded_fresh_ids: "n \<le> 4294967292 \<Longrightarrow> fresh_ids (NewInMemoryUserRepository now) n"
proof (rule fresh_idsI)
  assume n: "n \<le> 4294967292"
  then show "n \<le> 2 ^ 32" by simp
  fix i assume "i < n"
  then have i: "i < 4294967292" using n by simp
  show "nextID (NewInMemoryUserRepository now) + word_of_nat i
          \<notin> fst ` set (users (NewInMemoryUserRepository now))"
    using counter_not_seed[OF i] by (simp add: NewInMemoryUserRepository_def)
qed

lemma wrap_email_first: "wrap_email i = CHR ''u'' # bits i @ ''@example.com''"
  by (simp add: wrap_email_def)

text \<open>One round on the seeded contents: the creation succeeds with the value of the
  counter, the deletion removes the record again, and only the counter has moved.\<close>

lemma wrap_round:
  assumes "i < 4294967292"
  shows "fst (Create \<lparr>users = users (NewInMemoryUserRepository now), nextID = 4 + word_of_nat i\<rparr>
               (wrap_user i)) = None"
    and "snd (Delete (snd (snd (Create \<lparr>users = users (NewInMemoryUserRepository now),
                                         nextID = 4 + word_of_nat i\<rparr> (wrap_user i))))
               (4 + word_of_nat i))
           = \<lparr>users = users (NewInMemoryUserRepository now), nextID = 4 + word_of_nat (Suc i)\<rparr>"
  using counter_not_seed[OF assms]
  by (simp_all add: Create_def Delete_def NewInMemoryUserRepository_def wrap_user_def
      wrap_email_first)

lemma wrap_cycles_length:
  "i + n \<le> 4294967292 \<Longrightarrow>
   length (assigned_ids \<lparr>users = users (NewInMemoryUserRepository now), nextID = 4 + word_of_nat i\<rparr>
             (wrap_cycles i n)) = n"
proof (induction n arbitrary: i)
  case 0
  show ?case by simp
next
  case (Suc n)
  let ?r = "\<lparr>users = users (NewInMemoryUserRepository now), nextID = 4 + word_of_nat i\<rparr>"
  have i: "i < 4294967292" using Suc.prems by simp
  have a: "assigned_ids ?r (OpCreate (wrap_user i) # OpDelete (4 + word_of_nat i) # wrap_cycles (Suc i) n)
          = nextID ?r # assigned_ids (snd (snd (Create ?r (wrap_user i))))
                          (OpDelete (4 + word_of_nat i) # wrap_cycles (Suc i) n)"
    by (rule assigned_ids_Create_ok[OF wrap_round(1)[OF i]])
  have "assigned_ids ?r (wrap_cycles i (Suc n))
          = nextID ?r # assigned_ids (snd (Delete (snd (snd (Create ?r (wrap_user i)))) (4 + word_of_nat i)))
                          (wrap_cycles (Suc i) n)"
    by (simp only: wrap_cycles.simps a assigned_ids.simps(3))
  also have "\<dots> = nextID ?r # assigned_ids \<lparr>users = users (NewInMemoryUserRepository now),
                                              nextID = 4 + word_of_nat (Suc i)\<rparr> (wrap_cycles (Suc i) n)"
    by (simp only: wrap_round(2)[OF i])
  finally show ?case using Suc.IH[of "Suc i"] Suc.prems by simp
qed

lemma seeded_as_record:
  "NewInMemoryUserRepository now
     = \<lparr>users = users (NewInMemoryUserRepository now), nextID = 4 + word_of_nat 0\<rparr>"
  by (simp add: NewInMemoryUserRepository_def)

lemma wrap_ops_ids:
  "assigned_ids (NewInMemoryUserRepository 0) wrap_ops = map (\<lambda>i. 4 + word_of_nat i) [0..<2147483645]"
proof -
  have l: "length (assigned_ids (NewInMemoryUserRepository 0) wrap_ops) = 2147483645"
    unfolding wrap_ops_def by (subst seeded_as_record) (rule wrap_cycles_length, simp)
  have n: "nextID (NewInMemoryUserRepository 0) = 4" by (simp add: NewInMemoryUserRepository_def)
  show ?thesis
    using assigned_ids_consecutive[of "NewInMemoryUserRepository 0" wrap_ops]
    by (simp only: l n)
qed

text \<open>
  C5, as amended. From the seeded store, whatever creations and deletions are run, valid
  or not, the IDs the successful creations are given are the values \<open>4, 5, 6, ...\<close> of
  the counter in \<open>int32\<close> arithmetic, in this order: a failed creation and a deletion
  leave the counter alone. As long as at most \<open>2^31 - 4\<close> creations have succeeded (the
  IDs \<open>4\<close> to \<open>2147483647\<close>) the IDs are strictly increasing and no ID is given twice.
\<close>

theorem assigned_ids_increasing:
  "assigned_ids (NewInMemoryUserRepository now) ops
     = map (\<lambda>i. 4 + word_of_nat i) [0..<length (assigned_ids (NewInMemoryUserRepository now) ops)] \<and>
   (length (assigned_ids (NewInMemoryUserRepository now) ops) \<le> 2147483644 \<longrightarrow>
      sorted_wrt (\<lambda>a b. sint a < sint b) (assigned_ids (NewInMemoryUserRepository now) ops) \<and>
      distinct (assigned_ids (NewInMemoryUserRepository now) ops))"
proof (intro conjI impI)
  let ?ids = "assigned_ids (NewInMemoryUserRepository now) ops"
  have n: "nextID (NewInMemoryUserRepository now) = 4" by (simp add: NewInMemoryUserRepository_def)
  show c: "?ids = map (\<lambda>i. 4 + word_of_nat i) [0..<length ?ids]"
    using assigned_ids_consecutive[of "NewInMemoryUserRepository now" ops] by (simp only: n)
  assume k: "length ?ids \<le> 2147483644"
  have "map sint (map (\<lambda>i. (4::int32) + word_of_nat i) [0..<length ?ids])
          = map (\<lambda>i. sint (4::int32) + int i) [0..<length ?ids]"
    using k by (intro sint_consecutive) simp
  then have s: "map sint ?ids = map (\<lambda>i. 4 + int i) [0..<length ?ids]"
    by (subst c) simp
  have "sorted_wrt (<) (map (\<lambda>i. 4 + int i) [0..<length ?ids])"
    by (simp add: sorted_wrt_map)
  then have "sorted_wrt (<) (map sint ?ids)" by (simp only: s)
  then show "sorted_wrt (\<lambda>a b. sint a < sint b) ?ids" by (simp only: sorted_wrt_map)
  have "distinct (map (\<lambda>i. 4 + int i) [0..<length ?ids])"
    by (simp add: distinct_map inj_on_def)
  then have "distinct (map sint ?ids)" by (simp only: s)
  then show "distinct ?ids" by (simp add: distinct_map)
qed

lemma nth_map_upt0: "j < n \<Longrightarrow> map f [0..<n] ! j = f j"
  by simp

text \<open>
  C5 as stated fails: the counter is an \<open>int32\<close> and \<open>r.nextID++\<close> wraps. In the run
  \<open>wrap_ops\<close> from the seeded store all \<open>2^31 - 3\<close> creations are valid, have pairwise
  different emails and succeed; the creation of round \<open>2^31 - 5\<close> is given the ID
  \<open>2147483647\<close> and the next one the ID \<open>-2147483648\<close>, which is not larger.
\<close>

theorem assigned_ids_wrap_counterexample:
  "length (assigned_ids (NewInMemoryUserRepository 0) wrap_ops) = 2147483645 \<and>
   assigned_ids (NewInMemoryUserRepository 0) wrap_ops ! 2147483643 = 2147483647 \<and>
   sint (assigned_ids (NewInMemoryUserRepository 0) wrap_ops ! 2147483644) = - 2147483648 \<and>
   \<not> sint (assigned_ids (NewInMemoryUserRepository 0) wrap_ops ! 2147483643)
       < sint (assigned_ids (NewInMemoryUserRepository 0) wrap_ops ! 2147483644) \<and>
   distinct (map wrap_email [0..<2147483645])"
proof -
  let ?ids = "assigned_ids (NewInMemoryUserRepository 0) wrap_ops"
  have l: "length ?ids = 2147483645"
    by (simp only: wrap_ops_ids length_map length_upt)
  have "?ids ! 2147483643 = 4 + word_of_nat 2147483643"
    by (simp only: wrap_ops_ids) (rule nth_map_upt0, simp)
  then have a: "?ids ! 2147483643 = 2147483647" by simp
  have "?ids ! 2147483644 = 4 + word_of_nat 2147483644"
    by (simp only: wrap_ops_ids) (rule nth_map_upt0, simp)
  then have b: "sint (?ids ! 2147483644) = - 2147483648" by simp
  have c: "\<not> sint (?ids ! 2147483643) < sint (?ids ! 2147483644)"
    by (simp only: a b) simp
  show ?thesis using l a b c wrap_email_distinct[of 2147483645] by (intro conjI)
qed

theorem assigned_ids_increasing_witness:
  "assigned_ids (NewInMemoryUserRepository 0)
     [OpCreate \<lparr>ID = 0, Name = ''Alice'', Email = ''alice@example.com'', Role = ''user'', CreatedAt = 1, UpdatedAt = 1\<rparr>,
      OpDelete 4,
      OpCreate \<lparr>ID = 0, Name = ''Bob'', Email = ''bob@example.com'', Role = ''user'', CreatedAt = 2, UpdatedAt = 2\<rparr>,
      OpCreate \<lparr>ID = 0, Name = ''Carol'', Email = ''carol@example.com'', Role = ''user'', CreatedAt = 3, UpdatedAt = 3\<rparr>]
     = [4, 5] \<and>
   sorted_wrt (\<lambda>a b. sint a < sint b) [4, 5 :: int32] \<and> distinct [4, 5 :: int32]"
proof -
  have e: "assigned_ids (NewInMemoryUserRepository 0)
     [OpCreate \<lparr>ID = 0, Name = ''Alice'', Email = ''alice@example.com'', Role = ''user'', CreatedAt = 1, UpdatedAt = 1\<rparr>,
      OpDelete 4,
      OpCreate \<lparr>ID = 0, Name = ''Bob'', Email = ''bob@example.com'', Role = ''user'', CreatedAt = 2, UpdatedAt = 2\<rparr>,
      OpCreate \<lparr>ID = 0, Name = ''Carol'', Email = ''carol@example.com'', Role = ''user'', CreatedAt = 3, UpdatedAt = 3\<rparr>]
     = [4, 5]"
    by (simp add: NewInMemoryUserRepository_def Create_def Delete_def)
  show ?thesis
    using assigned_ids_increasing[of 0
     "[OpCreate \<lparr>ID = 0, Name = ''Alice'', Email = ''alice@example.com'', Role = ''user'', CreatedAt = 1, UpdatedAt = 1\<rparr>,
      OpDelete 4,
      OpCreate \<lparr>ID = 0, Name = ''Bob'', Email = ''bob@example.com'', Role = ''user'', CreatedAt = 2, UpdatedAt = 2\<rparr>,
      OpCreate \<lparr>ID = 0, Name = ''Carol'', Email = ''carol@example.com'', Role = ''user'', CreatedAt = 3, UpdatedAt = 3\<rparr>]"]
    by (simp only: e) simp
qed


section \<open>Bulk ingest after the counter has gone around\<close>

text \<open>The rounds of \<open>wrap_cycles\<close> go on leaving the seeded contents until the counter
  comes back to the seeded IDs; \<open>reach_max\<close> and \<open>reach_one\<close> are the stores the seeded
  store reaches when the counter is \<open>2147483647\<close> and when it is \<open>1\<close> again.\<close>

lemma counter_not_seed_ext:
  assumes "i < 4294967293"
  shows "(4 + word_of_nat i :: int32) \<noteq> 1" "(4 + word_of_nat i :: int32) \<noteq> 2"
    "(4 + word_of_nat i :: int32) \<noteq> 3"
proof -
  consider "i < 4294967292" | "i = 4294967292" using assms by linarith
  then show "(4 + word_of_nat i :: int32) \<noteq> 1"
    by cases (simp_all add: counter_not_seed(1))
  consider "i < 4294967292" | "i = 4294967292" using assms by linarith
  then show "(4 + word_of_nat i :: int32) \<noteq> 2"
    by cases (simp_all add: counter_not_seed(2))
  consider "i < 4294967292" | "i = 4294967292" using assms by linarith
  then show "(4 + word_of_nat i :: int32) \<noteq> 3"
    by cases (simp_all add: counter_not_seed(3))
qed

lemma wrap_round_ext:
  assumes "i < 4294967293"
  shows "snd (Delete (snd (snd (Create \<lparr>users = users (NewInMemoryUserRepository now),
                                         nextID = 4 + word_of_nat i\<rparr> (wrap_user i))))
               (4 + word_of_nat i))
           = \<lparr>users = users (NewInMemoryUserRepository now), nextID = 4 + word_of_nat (Suc i)\<rparr>"
  using counter_not_seed_ext[OF assms]
  by (simp add: Create_def Delete_def NewInMemoryUserRepository_def wrap_user_def
      wrap_email_first)

lemma store_of_wrap_cycles:
  "i + n \<le> 4294967293 \<Longrightarrow>
   store_of \<lparr>users = users (NewInMemoryUserRepository now), nextID = 4 + word_of_nat i\<rparr>
       (wrap_cycles i n)
     = \<lparr>users = users (NewInMemoryUserRepository now), nextID = 4 + word_of_nat (i + n)\<rparr>"
proof (induction n arbitrary: i)
  case 0
  show ?case by simp
next
  case (Suc n)
  have i: "i < 4294967293" using Suc.prems by simp
  have "store_of \<lparr>users = users (NewInMemoryUserRepository now), nextID = 4 + word_of_nat i\<rparr>
          (wrap_cycles i (Suc n))
        = store_of \<lparr>users = users (NewInMemoryUserRepository now), nextID = 4 + word_of_nat (Suc i)\<rparr>
            (wrap_cycles (Suc i) n)"
    by (simp only: wrap_cycles.simps store_of.simps wrap_round_ext[OF i])
  also have "\<dots> = \<lparr>users = users (NewInMemoryUserRepository now),
                     nextID = 4 + word_of_nat (Suc i + n)\<rparr>"
    using Suc.prems by (intro Suc.IH) simp
  finally show ?case by (simp only: add_Suc add_Suc_right)
qed

lemma reach_max:
  "store_of (NewInMemoryUserRepository 0) (wrap_cycles 0 2147483643)
     = \<lparr>users = users (NewInMemoryUserRepository 0), nextID = 2147483647\<rparr>"
proof -
  have "store_of \<lparr>users = users (NewInMemoryUserRepository 0), nextID = 4 + word_of_nat 0\<rparr>
          (wrap_cycles 0 2147483643)
        = \<lparr>users = users (NewInMemoryUserRepository 0), nextID = 4 + word_of_nat (0 + 2147483643)\<rparr>"
    by (rule store_of_wrap_cycles) simp
  then show ?thesis by (simp add: NewInMemoryUserRepository_def)
qed

lemma reach_one:
  "store_of (NewInMemoryUserRepository 0) (wrap_cycles 0 4294967293)
     = \<lparr>users = users (NewInMemoryUserRepository 0), nextID = 1\<rparr>"
proof -
  have "store_of \<lparr>users = users (NewInMemoryUserRepository 0), nextID = 4 + word_of_nat 0\<rparr>
          (wrap_cycles 0 4294967293)
        = \<lparr>users = users (NewInMemoryUserRepository 0), nextID = 4 + word_of_nat (0 + 4294967293)\<rparr>"
    by (rule store_of_wrap_cycles) simp
  then show ?thesis by (simp add: NewInMemoryUserRepository_def)
qed

text \<open>
  C10 as stated fails: on the store that \<open>2^31 - 5\<close> rounds from the seeded store leave,
  whose counter is \<open>2147483647\<close>, a batch of two valid items with new emails is given
  the IDs \<open>2147483647\<close> and \<open>-2147483648\<close>, which are not consecutive integers.
\<close>

theorem Create_failure_keeps_store_wrap_counterexample:
  "store_of (NewInMemoryUserRepository 0) (wrap_cycles 0 2147483643)
     = \<lparr>users = users (NewInMemoryUserRepository 0), nextID = 2147483647\<rparr> \<and>
   fst (CreateUsers (store_of (NewInMemoryUserRepository 0) (wrap_cycles 0 2147483643))
         [(\<lparr>req_Name = ''Alice'', req_Email = ''alice@example.com'', req_Role = []\<rparr>, 1),
          (\<lparr>req_Name = ''Charlie'', req_Email = ''charlie@example.com'', req_Role = []\<rparr>, 2)]
         io_EOF)
     = Inr \<lparr>CreatedCount = 2, UserIds = [2147483647, - 2147483648], Errors = []\<rparr> \<and>
   sint (2147483647 :: int32) = 2147483647 \<and>
   sint (- 2147483648 :: int32) = - 2147483648"
  by (simp only: reach_max)
    (simp add: NewInMemoryUserRepository_def CreateUsers_def Create_def FromCreateRequest_def)

text \<open>
  C9 as stated fails: on the store that \<open>2^32 - 3\<close> rounds from the seeded store leave,
  with the three seeded users and the counter at \<open>1\<close>, the batch of a valid new item and
  an item with the email of the live user 1 reports two creations and no failure: the
  first item is given the ID 1 and \<open>r.users[user.ID] = user\<close> overwrites user 1, so the
  email of the second item is no longer in the store when it is scanned.
\<close>

theorem CreateUsers_batch_overwrite_counterexample:
  "store_of (NewInMemoryUserRepository 0) (wrap_cycles 0 4294967293)
     = \<lparr>users = users (NewInMemoryUserRepository 0), nextID = 1\<rparr> \<and>
   EmailExists (store_of (NewInMemoryUserRepository 0) (wrap_cycles 0 4294967293))
     ''john@example.com'' \<and>
   fst (CreateUsers (store_of (NewInMemoryUserRepository 0) (wrap_cycles 0 4294967293))
         [(\<lparr>req_Name = ''Zed'', req_Email = ''zed@example.com'', req_Role = []\<rparr>, 1),
          (\<lparr>req_Name = ''Dup'', req_Email = ''john@example.com'', req_Role = []\<rparr>, 2)]
         io_EOF)
     = Inr \<lparr>CreatedCount = 2, UserIds = [1, 2], Errors = []\<rparr>"
  by (simp only: reach_one)
    (simp add: NewInMemoryUserRepository_def CreateUsers_def Create_def FromCreateRequest_def
      EmailExists_def)

section \<open>Email uniqueness\<close>

lemma emails_update_subset:
  "(\<lambda>kv. Email (snd kv)) ` set (AList.update k v al)
     \<subseteq> insert (Email v) ((\<lambda>kv. Email (snd kv)) ` set al)"
  by (induction al) auto

lemma update_emails_distinct:
  "distinct (map (\<lambda>kv. Email (snd kv)) al) \<Longrightarrow> Email v \<notin> (\<lambda>kv. Email (snd kv)) ` set al \<Longrightarrow>
   distinct (map (\<lambda>kv. Email (snd kv)) (AList.update k v al))"
proof (induction al)
  case Nil
  then show ?case by simp
next
  case (Cons p al)
  show ?case
  proof (cases "fst p = k")
    case True
    then show ?thesis using Cons.prems by simp
  next
    case False
    have ih: "distinct (map (\<lambda>kv. Email (snd kv)) (AList.update k v al))"
      using Cons by simp
    have "Email (snd p) \<notin> insert (Email v) ((\<lambda>kv. Email (snd kv)) ` set al)"
      using Cons.prems by auto
    then have "Email (snd p) \<notin> (\<lambda>kv. Email (snd kv)) ` set (AList.update k v al)"
      using emails_update_subset[of k v al] by blast
    then show ?thesis using False ih by simp
  qed
qed

lemma range_email_image: "range_email us e = (e \<in> (\<lambda>kv. Email (snd kv)) ` set us)"
  by (induction us) auto

lemma Create_unique_emails: "unique_emails r \<Longrightarrow> unique_emails (snd (snd (Create r user)))"
  by (simp add: unique_emails_def Create_def update_emails_distinct range_email_image)

lemma Delete_unique_emails: "unique_emails r \<Longrightarrow> unique_emails (snd (Delete r uid))"
  by (auto simp: unique_emails_def Delete_def AList.delete_eq distinct_map_filter)

lemma store_after_unique_emails: "unique_emails r \<Longrightarrow> unique_emails (store_after r items)"
  by (induction items arbitrary: r) (auto simp: Create_item_def Create_unique_emails)

text \<open>
  C1. Email uniqueness holds in the seeded store and is kept by \<open>Create\<close>, by \<open>Delete\<close>
  and by bulk ingest (the three lemmas above), but not by \<open>UpdateUser\<close>, which never
  looks at the emails of the other users: on the seeded store the request that sets the
  email of user 2 to the email of user 1 succeeds, and leaves two live users with the
  email \<open>john@example.com\<close>.
\<close>

theorem UpdateUser_breaks_unique_emails:
  "unique_emails (NewInMemoryUserRepository 0) \<and>
   UpdateUser None (NewInMemoryUserRepository 0)
        \<lparr>upd_Id = 2, upd_Name = [], upd_Email = ''john@example.com'', upd_Role = []\<rparr> 5
     = (Inr \<lparr>resp_Id = 2, resp_Name = ''Jane Smith'', resp_Email = ''john@example.com'',
             resp_Role = ''user'', resp_CreatedAt = 0, resp_UpdatedAt = 5\<rparr>,
        \<lparr>users =
           [(1, \<lparr>ID = 1, Name = ''John Doe'', Email = ''john@example.com'', Role = ''admin'',
                 CreatedAt = 0, UpdatedAt = 0\<rparr>),
            (2, \<lparr>ID = 2, Name = ''Jane Smith'', Email = ''john@example.com'', Role = ''user'',
                 CreatedAt = 0, UpdatedAt = 5\<rparr>),
            (3, \<lparr>ID = 3, Name = ''Bob Johnson'', Email = ''bob@example.com'', Role = ''user'',
                 CreatedAt = 0, UpdatedAt = 0\<rparr>)],
         nextID = 4\<rparr>) \<and>
   \<not> unique_emails (snd (UpdateUser None (NewInMemoryUserRepository 0)
        \<lparr>upd_Id = 2, upd_Name = [], upd_Email = ''john@example.com'', upd_Role = []\<rparr> 5))"
  by (simp add: unique_emails_def NewInMemoryUserRepository_def UpdateUser_def checkContext_def
      GetByID_def User_Update_def Update_def ToProto_def)



end
